theory Spec2Isabelle
  imports Main
begin

section \<open>Constants of \<open>Connect_4_Main_Version.py\<close>\<close>

text \<open>
  The module-level constants, with the values the source gives them. The player
  identifiers and the piece types are distinct families of constants in the source,
  and both are plain integers.
\<close>

definition PLAYER_HUMAN :: int where "PLAYER_HUMAN = 0"
definition PLAYER_AI :: int where "PLAYER_AI = 1"

definition POSITIVE :: int where "POSITIVE = 10000000"
definition NEGATIVE :: int where "NEGATIVE = - 10000000"

definition PIECE_EMPTY :: int where "PIECE_EMPTY = 0"
definition PIECE_HUMAN :: int where "PIECE_HUMAN = 1"
definition PIECE_AI :: int where "PIECE_AI = 2"

definition WINNING_LENGTH :: nat where "WINNING_LENGTH = 4"

lemmas consts_defs =
  PLAYER_HUMAN_def PLAYER_AI_def POSITIVE_def NEGATIVE_def
  PIECE_EMPTY_def PIECE_HUMAN_def PIECE_AI_def WINNING_LENGTH_def

section \<open>Errors and the error monad\<close>

text \<open>
  The exceptions the modelled code can raise. A computation that may raise returns
  \<open>py_error + 'a\<close>, with \<open>Inl\<close> for the exception.
\<close>

datatype py_error = IndexError | ZeroDivisionError

definition ebind :: "py_error + 'a \<Rightarrow> ('a \<Rightarrow> py_error + 'b) \<Rightarrow> py_error + 'b" where
  "ebind m f = (case m of Inl e \<Rightarrow> Inl e | Inr x \<Rightarrow> f x)"

text \<open>A \<open>for\<close> loop that updates local state and may raise in its body.\<close>

fun fold_err :: "('s \<Rightarrow> 'a \<Rightarrow> py_error + 's) \<Rightarrow> 'a list \<Rightarrow> 's \<Rightarrow> py_error + 's" where
  "fold_err f [] s = Inr s"
| "fold_err f (x # xs) s = (case f s x of Inl e \<Rightarrow> Inl e | Inr s' \<Rightarrow> fold_err f xs s')"

text \<open>A list comprehension whose element expression may raise.\<close>

fun map_err :: "('a \<Rightarrow> py_error + 'b) \<Rightarrow> 'a list \<Rightarrow> py_error + 'b list" where
  "map_err f [] = Inr []"
| "map_err f (x # xs) =
     (case f x of Inl e \<Rightarrow> Inl e
      | Inr y \<Rightarrow> (case map_err f xs of Inl e \<Rightarrow> Inl e | Inr ys \<Rightarrow> Inr (y # ys)))"

text \<open>
  A \<open>for\<close> loop whose body is \<open>if cond: return True\<close>: the loop stops at the first
  element whose condition holds (or raises).
\<close>

fun any_err :: "('a \<Rightarrow> py_error + bool) \<Rightarrow> 'a list \<Rightarrow> py_error + bool" where
  "any_err p [] = Inr False"
| "any_err p (x # xs) =
     (case p x of Inl e \<Rightarrow> Inl e
      | Inr found \<Rightarrow> if found then Inr True else any_err p xs)"

text \<open>Two such loops in sequence: the second runs only when the first did not return.\<close>

definition or_else :: "py_error + bool \<Rightarrow> py_error + bool \<Rightarrow> py_error + bool" where
  "or_else x y = (case x of Inl e \<Rightarrow> Inl e | Inr found \<Rightarrow> if found then Inr True else y)"

text \<open>Python's short-circuit \<open>and\<close> of two conditions that may raise.\<close>

definition and_also :: "py_error + bool \<Rightarrow> py_error + bool \<Rightarrow> py_error + bool" where
  "and_also x y = (case x of Inl e \<Rightarrow> Inl e | Inr t \<Rightarrow> if t then y else Inr False)"

section \<open>The board\<close>

text \<open>
  The board is a two-dimensional numpy array of floats that only ever hold the values
  0, 1 and 2; it is modelled as the list of its rows, row 0 first, with integer cells.
  An array with no rows has no such representation that keeps its number of columns,
  so the model covers arrays with at least one row.

  Indexing follows numpy (and Python): a negative index counts from the end, and an
  index outside \<open>-n .. n-1\<close> raises \<open>IndexError\<close>.
\<close>

type_synonym board = "int list list"

definition get :: "'a list \<Rightarrow> int \<Rightarrow> py_error + 'a" where
  "get xs i =
     (if 0 \<le> i \<and> i < int (length xs) then Inr (xs ! nat i)
      else if i < 0 \<and> - int (length xs) \<le> i then Inr (xs ! nat (int (length xs) + i))
      else Inl IndexError)"

text \<open>\<open>board[r][c]\<close>\<close>

definition at :: "board \<Rightarrow> int \<Rightarrow> int \<Rightarrow> py_error + int" where
  "at board r c = ebind (get board r) (\<lambda>row. get row c)"

record game =
  row_count :: nat
  column_count :: nat

text \<open>\<open>Connect4Game.create_board\<close>: \<open>np.zeros((row_count, column_count))\<close>\<close>

definition create_board :: "game \<Rightarrow> board" where
  "create_board g = replicate (row_count g) (replicate (column_count g) 0)"

text \<open>\<open>Connect4Game.is_column_open\<close>: \<open>board[self.row_count - 1][col] == PIECE_EMPTY\<close>\<close>

definition is_column_open :: "game \<Rightarrow> board \<Rightarrow> int \<Rightarrow> py_error + bool" where
  "is_column_open g board col =
     ebind (at board (int (row_count g) - 1) col) (\<lambda>v. Inr (v = PIECE_EMPTY))"

text \<open>
  A board has the shape of the game when it has \<open>row_count\<close> rows of \<open>column_count\<close>
  cells each (and at least one row, see above).
\<close>

definition shape :: "game \<Rightarrow> board \<Rightarrow> bool" where
  "shape g board \<longleftrightarrow>
     0 < row_count g \<and> length board = row_count g \<and>
     list_all (\<lambda>row. length row = column_count g) board"

text \<open>
  An assignment \<open>board[r][c] = piece\<close> with indices that are not negative (every
  assignment of the source takes its indices from a \<open>range\<close> or from
  \<open>find_open_row\<close>).
\<close>

definition set_cell :: "board \<Rightarrow> nat \<Rightarrow> nat \<Rightarrow> int \<Rightarrow> py_error + board" where
  "set_cell board r c piece =
     (if r < length board \<and> c < length (board ! r)
      then Inr (board[r := (board ! r)[c := piece]])
      else Inl IndexError)"

text \<open>
  \<open>Connect4Game.find_open_row\<close>: the first row, from the bottom, whose cell in the column
  is empty; the loop falls through and the function returns \<open>None\<close> when there is none.
\<close>

fun first_empty :: "board \<Rightarrow> nat \<Rightarrow> nat list \<Rightarrow> py_error + nat option" where
  "first_empty board col [] = Inr None"
| "first_empty board col (r # rs) =
     ebind (at board (int r) (int col)) (\<lambda>v.
       if v = PIECE_EMPTY then Inr (Some r) else first_empty board col rs)"

definition find_open_row :: "game \<Rightarrow> board \<Rightarrow> nat \<Rightarrow> py_error + nat option" where
  "find_open_row g board col = first_empty board col [0..<row_count g]"

text \<open>
  \<open>Connect4Game.place_disc\<close>: \<open>board[row][col] = piece\<close>, where \<open>row\<close> is what
  \<open>find_open_row\<close> returned. With \<open>row = None\<close> numpy indexes a view of the array with
  a new leading axis of length 1, so the assignment overwrites the whole array when
  \<open>col = 0\<close> and raises \<open>IndexError\<close> for any other column.
\<close>

fun place_disc :: "board \<Rightarrow> nat option \<Rightarrow> nat \<Rightarrow> int \<Rightarrow> py_error + board" where
  "place_disc board (Some row) col piece = set_cell board row col piece"
| "place_disc board None col piece =
     (if col = 0 then Inr (map (map (\<lambda>_. piece)) board) else Inl IndexError)"

section \<open>Line scanning\<close>

text \<open>\<open>board[r][c] == piece\<close>\<close>

definition cell_is :: "board \<Rightarrow> nat \<Rightarrow> nat \<Rightarrow> int \<Rightarrow> py_error + bool" where
  "cell_is board r c piece = ebind (at board (int r) (int c)) (\<lambda>v. Inr (v = piece))"

text \<open>
  \<open>Connect4Game.is_winning_pattern\<close>: four scans (horizontal, vertical, rising and
  falling diagonal), each a double loop that returns \<open>True\<close> at the first run of four.
\<close>

definition is_winning_pattern :: "game \<Rightarrow> board \<Rightarrow> int \<Rightarrow> py_error + bool" where
  "is_winning_pattern g board piece =
     (if piece = PIECE_EMPTY then Inr False
      else
        or_else
          (any_err (\<lambda>c. any_err (\<lambda>r.
              and_also (cell_is board r c piece)
             (and_also (cell_is board r (c + 1) piece)
             (and_also (cell_is board r (c + 2) piece)
                       (cell_is board r (c + 3) piece))))
            [0..<row_count g]) [0..<column_count g - 3])
       (or_else
          (any_err (\<lambda>c. any_err (\<lambda>r.
              and_also (cell_is board r c piece)
             (and_also (cell_is board (r + 1) c piece)
             (and_also (cell_is board (r + 2) c piece)
                       (cell_is board (r + 3) c piece))))
            [0..<row_count g - 3]) [0..<column_count g])
       (or_else
          (any_err (\<lambda>c. any_err (\<lambda>r.
              and_also (cell_is board r c piece)
             (and_also (cell_is board (r + 1) (c + 1) piece)
             (and_also (cell_is board (r + 2) (c + 2) piece)
                       (cell_is board (r + 3) (c + 3) piece))))
            [0..<row_count g - 3]) [0..<column_count g - 3])
          (any_err (\<lambda>c. any_err (\<lambda>r.
              and_also (cell_is board r c piece)
             (and_also (cell_is board (r - 1) (c + 1) piece)
             (and_also (cell_is board (r - 2) (c + 2) piece)
                       (cell_is board (r - 3) (c + 3) piece))))
            [3..<row_count g]) [0..<column_count g - 3]))))"

text \<open>
  The condition of \<open>Connect4AI.is_near_win\<close> at one window, whose \<open>i\<close>-th cell is
  \<open>pos i\<close>:
  \<^verbatim>\<open>sum([board[..] == piece for i in range(WINNING_LENGTH - 1)]) == 3 and
  PIECE_EMPTY in [board[..] for i in range(WINNING_LENGTH)]\<close>
\<close>

definition near_cond :: "board \<Rightarrow> int \<Rightarrow> (nat \<Rightarrow> nat \<times> nat) \<Rightarrow> py_error + bool" where
  "near_cond board piece pos =
     ebind (map_err (\<lambda>i. cell_is board (fst (pos i)) (snd (pos i)) piece)
              [0..<WINNING_LENGTH - 1]) (\<lambda>flags.
       if sum_list (map (\<lambda>f. if f then 1 else 0) flags) = (3::nat)
       then ebind (map_err (\<lambda>i. at board (int (fst (pos i))) (int (snd (pos i))))
                     [0..<WINNING_LENGTH]) (\<lambda>cells.
              Inr (PIECE_EMPTY \<in> set cells))
       else Inr False)"

text \<open>\<open>Connect4AI.is_near_win\<close>: the same four scans, for the human's piece and then the AI's.\<close>

definition is_near_win :: "game \<Rightarrow> board \<Rightarrow> py_error + bool" where
  "is_near_win g board =
     any_err (\<lambda>piece.
        or_else
          (any_err (\<lambda>c. any_err (\<lambda>r. near_cond board piece (\<lambda>i. (r, c + i)))
            [0..<row_count g]) [0..<column_count g - 3])
       (or_else
          (any_err (\<lambda>c. any_err (\<lambda>r. near_cond board piece (\<lambda>i. (r + i, c)))
            [0..<row_count g - 3]) [0..<column_count g])
       (or_else
          (any_err (\<lambda>c. any_err (\<lambda>r. near_cond board piece (\<lambda>i. (r + i, c + i)))
            [0..<row_count g - 3]) [0..<column_count g - 3])
          (any_err (\<lambda>c. any_err (\<lambda>r. near_cond board piece (\<lambda>i. (r - i, c + i)))
            [3..<row_count g]) [0..<column_count g - 3]))))
       [PIECE_HUMAN, PIECE_AI]"

section \<open>Dynamic depth\<close>

text \<open>
  \<open>Connect4AI.calculate_dynamic_depth\<close>. \<open>empty_cells / total_cells\<close> is a float
  quotient of two integers, compared with 0.5 and 0.25; the quotient is correctly
  rounded, so for any board of fewer than \<open>2^52\<close> cells the comparison agrees with the
  exact one, which the model uses. A board of no cells raises \<open>ZeroDivisionError\<close>.
\<close>

definition count_empty :: "board \<Rightarrow> nat" where
  "count_empty board = length (filter (\<lambda>v. v = PIECE_EMPTY) (concat board))"

definition calculate_dynamic_depth :: "game \<Rightarrow> board \<Rightarrow> py_error + nat" where
  "calculate_dynamic_depth g board =
     (let empty_cells = count_empty board;
          total_cells = row_count g * column_count g;
          base_depth = 7
      in if total_cells = 0 then Inl ZeroDivisionError
         else if 2 * empty_cells < total_cells then Inr (base_depth + 1)
         else if 4 * empty_cells < total_cells then Inr (base_depth + 2)
         else ebind (is_near_win g board) (\<lambda>near.
                if near then Inr (base_depth + 3) else Inr base_depth))"

section \<open>Evaluation\<close>

text \<open>\<open>Connect4AI.assess_line\<close>\<close>

definition assess_line :: "int list \<Rightarrow> int \<Rightarrow> int" where
  "assess_line line_segment piece =
     (let opponent_piece = (if piece = PIECE_HUMAN then PIECE_AI else PIECE_HUMAN);
          score =
            (if count_list line_segment piece = 4 then 1000
             else if count_list line_segment piece = 3
                     \<and> count_list line_segment PIECE_EMPTY = 1 then 50
             else if count_list line_segment piece = 2
                     \<and> count_list line_segment PIECE_EMPTY = 2 then 10
             else 0)
      in if count_list line_segment opponent_piece = 3
            \<and> count_list line_segment PIECE_EMPTY = 1
         then score - 25 else score)"

text \<open>The column slice \<open>board[:, j]\<close>.\<close>

definition column_of :: "board \<Rightarrow> int \<Rightarrow> py_error + int list" where
  "column_of board j = map_err (\<lambda>row. get row j) board"

text \<open>
  One step of the "immediate win check" of \<open>evaluate_board_state\<close>: an empty cell is
  filled with the piece, the board is tested, and the cell is emptied again. The loop
  state is the board (mutated in place by the source) and the score.
\<close>

definition try_cell :: "game \<Rightarrow> int \<Rightarrow> nat \<Rightarrow> board \<times> int \<Rightarrow> nat \<Rightarrow> py_error + board \<times> int" where
  "try_cell g piece c s r =
     (case s of (board, score) \<Rightarrow>
        ebind (at board (int r) (int c)) (\<lambda>v.
          if v = PIECE_EMPTY then
            ebind (set_cell board r c piece) (\<lambda>b1.
            ebind (is_winning_pattern g b1 piece) (\<lambda>w.
            ebind (set_cell b1 r c PIECE_EMPTY) (\<lambda>b2.
              Inr (b2, if w then score + 1000000 else score))))
          else Inr (board, score)))"

text \<open>
  \<open>Connect4AI.evaluate_board_state\<close>. The function returns the score; the model also
  returns the board as the function leaves it, since the source writes to the array it
  was given.
\<close>

definition evaluate_board_state :: "game \<Rightarrow> board \<Rightarrow> int \<Rightarrow> py_error + board \<times> int" where
  "evaluate_board_state g board piece =
     ebind (column_of board (int (column_count g div 2))) (\<lambda>center_array.
     ebind (fold_err (\<lambda>s c. fold_err (try_cell g piece c) [0..<row_count g] s)
              [0..<column_count g] (board, int (count_list center_array piece) * 3))
       (\<lambda>(board', score).
     ebind (fold_err (\<lambda>score r.
              ebind (get board' (int r)) (\<lambda>row_array.
                fold_err (\<lambda>score c.
                    Inr (score + assess_line (take WINNING_LENGTH (drop c row_array)) piece))
                  [0..<column_count g - 3] score))
              [0..<row_count g] score) (\<lambda>score.
     ebind (fold_err (\<lambda>score c.
              ebind (column_of board' (int c)) (\<lambda>col_array.
                fold_err (\<lambda>score r.
                    Inr (score + assess_line (take WINNING_LENGTH (drop r col_array)) piece))
                  [0..<row_count g - 3] score))
              [0..<column_count g] score) (\<lambda>score.
     ebind (fold_err (\<lambda>score r. fold_err (\<lambda>score c.
                ebind (map_err (\<lambda>i. at board' (int (r + i)) (int (c + i)))
                         [0..<WINNING_LENGTH]) (\<lambda>line_segment.
                  Inr (score + assess_line line_segment piece)))
              [0..<column_count g - 3] score)
              [0..<row_count g - 3] score) (\<lambda>score.
     ebind (fold_err (\<lambda>score r. fold_err (\<lambda>score c.
                ebind (map_err (\<lambda>i. at board' (int (r + 3 - i)) (int (c + i)))
                         [0..<WINNING_LENGTH]) (\<lambda>line_segment.
                  Inr (score + assess_line line_segment piece)))
              [0..<column_count g - 3] score)
              [0..<row_count g - 3] score) (\<lambda>score.
       Inr (board', score)))))))"

section \<open>Move generation\<close>

text \<open>
  One iteration of the loop of \<open>Connect4AI.find_playable_columns\<close>; the loop state is
  the pair of lists \<open>(playable_columns, winning_columns)\<close>. The trial move is made on a
  copy of the board.
\<close>

definition playable_step ::
  "game \<Rightarrow> board \<Rightarrow> nat list \<times> nat list \<Rightarrow> nat \<Rightarrow> py_error + nat list \<times> nat list" where
  "playable_step g board s col =
     (case s of (playable_columns, winning_columns) \<Rightarrow>
        ebind (is_column_open g board (int col)) (\<lambda>open_col.
          if open_col then
            ebind (find_open_row g board col) (\<lambda>temp_row.
            ebind (place_disc board temp_row col PLAYER_AI) (\<lambda>temp_board.
            ebind (is_winning_pattern g temp_board PLAYER_AI) (\<lambda>w.
            ebind (place_disc temp_board temp_row col PIECE_EMPTY) (\<lambda>_.
              Inr (playable_columns @ [col],
                   if w then winning_columns @ [col] else winning_columns)))))
          else Inr (playable_columns, winning_columns)))"

definition find_playable_columns :: "game \<Rightarrow> board \<Rightarrow> py_error + nat list" where
  "find_playable_columns g board =
     ebind (fold_err (playable_step g board) [0..<column_count g] ([], []))
       (\<lambda>(playable_columns, winning_columns).
          Inr (if winning_columns \<noteq> [] then winning_columns else playable_columns))"

text \<open>\<open>Connect4AI.is_game_over\<close>\<close>

definition is_game_over :: "game \<Rightarrow> board \<Rightarrow> py_error + bool" where
  "is_game_over g board =
     ebind (is_winning_pattern g board PLAYER_AI) (\<lambda>w1.
       if w1 then Inr True
       else ebind (is_winning_pattern g board PLAYER_HUMAN) (\<lambda>w2.
         if w2 then Inr True
         else ebind (find_playable_columns g board) (\<lambda>cols.
           Inr (length cols = 0))))"

section \<open>Search\<close>

text \<open>
  Scores are Python numbers: the integers the terminal and leaf branches return, and the
  floats \<open>-inf\<close> and \<open>inf\<close> that initialise \<open>value\<close> and that callers pass as \<open>alpha\<close>
  and \<open>beta\<close>.
\<close>

datatype score = NegInf | Fin int | PosInf

instantiation score :: linorder
begin

fun less_eq_score :: "score \<Rightarrow> score \<Rightarrow> bool" where
  "less_eq_score NegInf _ = True"
| "less_eq_score (Fin _) NegInf = False"
| "less_eq_score (Fin x) (Fin y) = (x \<le> y)"
| "less_eq_score (Fin _) PosInf = True"
| "less_eq_score PosInf PosInf = True"
| "less_eq_score PosInf _ = False"

definition less_score :: "score \<Rightarrow> score \<Rightarrow> bool" where
  "less_score a b \<longleftrightarrow> a \<le> b \<and> \<not> b \<le> a"

instance
proof
  fix x y z :: score
  show "(x < y) = (x \<le> y \<and> \<not> y \<le> x)" by (simp add: less_score_def)
  show "x \<le> x" by (cases x) simp_all
  show "x \<le> y \<Longrightarrow> y \<le> z \<Longrightarrow> x \<le> z" by (cases x; cases y; cases z) simp_all
  show "x \<le> y \<Longrightarrow> y \<le> x \<Longrightarrow> x = y" by (cases x; cases y) simp_all
  show "x \<le> y \<or> y \<le> x" by (cases x; cases y) auto
qed

end

text \<open>
  The scores of the two decided terminal branches of \<open>minimax\<close>:
  \<^verbatim>\<open>POSITIVE - (self.game.row_count * self.game.column_count - depth)\<close> and
  \<^verbatim>\<open>NEGATIVE + (self.game.row_count * self.game.column_count - depth)\<close>.
\<close>

definition win_score :: "game \<Rightarrow> nat \<Rightarrow> int" where
  "win_score g depth = POSITIVE - (int (row_count g * column_count g) - int depth)"

definition loss_score :: "game \<Rightarrow> nat \<Rightarrow> int" where
  "loss_score g depth = NEGATIVE + (int (row_count g * column_count g) - int depth)"

text \<open>
  The state of a \<open>Connect4AI\<close> object that \<open>minimax\<close> reads and writes: the
  transposition table, and the number of draws made so far from the random number generator.
  The table's key is \<open>(str(board), depth, maximizingPlayer)\<close>; the printed form of an
  array of at most 1000 cells shows every cell, so for such boards of one shape the key
  determines the board, and the model uses the board itself. The generator is a parameter
  \<open>rnd\<close>: the \<open>n\<close>-th draw is \<open>rnd n\<close>.
\<close>

type_synonym table = "board \<times> nat \<times> bool \<Rightarrow> (nat option \<times> score) option"

record ai_state =
  transposition_table :: table
  draws :: nat

text \<open>\<open>random.choice(seq)\<close>: raises \<open>IndexError\<close> on an empty sequence.\<close>

definition random_choice :: "(nat \<Rightarrow> nat) \<Rightarrow> ai_state \<Rightarrow> nat list \<Rightarrow> py_error + ai_state \<times> nat" where
  "random_choice rnd st xs =
     (if xs = [] then Inl IndexError
      else Inr (st\<lparr>draws := draws st + 1\<rparr>, xs ! (rnd (draws st) mod length xs)))"

type_synonym search_result = "py_error + ai_state \<times> board \<times> nat option \<times> score"

text \<open>
  The loop of the maximizing branch of \<open>minimax\<close> over the remaining columns. \<open>child\<close>
  is the recursive call at \<open>depth - 1\<close>; the loop state is
  \<open>(self, alpha, value, column)\<close>, and \<open>break\<close> ends the loop.
\<close>

fun max_loop ::
  "game \<Rightarrow> (ai_state \<Rightarrow> board \<Rightarrow> score \<Rightarrow> score \<Rightarrow> search_result) \<Rightarrow> board \<Rightarrow> score \<Rightarrow>
   nat list \<Rightarrow> ai_state \<times> score \<times> score \<times> nat \<Rightarrow> py_error + ai_state \<times> nat \<times> score" where
  "max_loop g child board beta [] (st, alpha, val, column) = Inr (st, column, val)"
| "max_loop g child board beta (col # cols) (st, alpha, val, column) =
     ebind (find_open_row g board col) (\<lambda>row.
     ebind (place_disc board row col PLAYER_AI) (\<lambda>b_copy.
     ebind (child st b_copy alpha beta) (\<lambda>(st', _, _, new_score).
       let val' = (if val < new_score then new_score else val);
           column' = (if val < new_score then col else column);
           alpha' = max alpha val'
       in if beta \<le> alpha' then Inr (st', column', val')
          else max_loop g child board beta cols (st', alpha', val', column'))))"

text \<open>The loop of the minimizing branch; the loop state is \<open>(self, beta, value, column)\<close>.\<close>

fun min_loop ::
  "game \<Rightarrow> (ai_state \<Rightarrow> board \<Rightarrow> score \<Rightarrow> score \<Rightarrow> search_result) \<Rightarrow> board \<Rightarrow> score \<Rightarrow>
   nat list \<Rightarrow> ai_state \<times> score \<times> score \<times> nat \<Rightarrow> py_error + ai_state \<times> nat \<times> score" where
  "min_loop g child board alpha [] (st, beta, val, column) = Inr (st, column, val)"
| "min_loop g child board alpha (col # cols) (st, beta, val, column) =
     ebind (find_open_row g board col) (\<lambda>row.
     ebind (place_disc board row col PLAYER_HUMAN) (\<lambda>b_copy.
     ebind (child st b_copy alpha beta) (\<lambda>(st', _, _, new_score).
       let val' = (if new_score < val then new_score else val);
           column' = (if new_score < val then col else column);
           beta' = min beta val'
       in if beta' \<le> alpha then Inr (st', column', val')
          else min_loop g child board alpha cols (st', beta', val', column'))))"

text \<open>
  \<open>Connect4AI.minimax\<close>. The result is the pair \<open>(column, value)\<close> the source returns,
  together with the object's state and the board argument as the call leaves them.
  The depth is a natural number: no caller passes a negative one.
\<close>

fun minimax ::
  "game \<Rightarrow> (nat \<Rightarrow> nat) \<Rightarrow> ai_state \<Rightarrow> board \<Rightarrow> nat \<Rightarrow> score \<Rightarrow> score \<Rightarrow> bool \<Rightarrow> search_result" where
  "minimax g rnd st board depth alpha beta maximizingPlayer =
     (case transposition_table st (board, depth, maximizingPlayer) of
        Some cached \<Rightarrow> Inr (st, board, cached)
      | None \<Rightarrow>
         ebind (find_playable_columns g board) (\<lambda>playable_columns.
         ebind (is_game_over g board) (\<lambda>is_terminal.
           if depth = 0 \<or> is_terminal then
             (if is_terminal then
                ebind (is_winning_pattern g board PLAYER_AI) (\<lambda>w1.
                  if w1 then
                    Inr (st, board, None, Fin (win_score g depth))
                  else ebind (is_winning_pattern g board PLAYER_HUMAN) (\<lambda>w2.
                    if w2 then
                      Inr (st, board, None, Fin (loss_score g depth))
                    else Inr (st, board, None, Fin 0)))
              else
                ebind (evaluate_board_state g board PLAYER_AI) (\<lambda>(board', s).
                  Inr (st, board', None, Fin s)))
           else
             ebind (random_choice rnd st playable_columns) (\<lambda>(st1, column).
             ebind (if maximizingPlayer then
                      max_loop g (\<lambda>st' b a be. minimax g rnd st' b (depth - 1) a be False)
                        board beta playable_columns (st1, alpha, NegInf, column)
                    else
                      min_loop g (\<lambda>st' b a be. minimax g rnd st' b (depth - 1) a be True)
                        board alpha playable_columns (st1, beta, PosInf, column))
               (\<lambda>(st2, column, val).
                 Inr (st2\<lparr>transposition_table :=
                            (transposition_table st2)
                              ((board, depth, maximizingPlayer) \<mapsto> (Some column, val))\<rparr>,
                      board, Some column, val))))))"

section \<open>Unpruned minimax\<close>

text \<open>
  The reference the pruned search is compared with: full minimax over the same game
  tree (the same move generator, moves and terminal test), with no pruning and no
  table. The value of an inner node is the greatest (least) value of its children, and
  its column is the first one that attains it.
\<close>

definition maximum :: "score list \<Rightarrow> score" where
  "maximum vs = foldr max vs NegInf"

definition minimum :: "score list \<Rightarrow> score" where
  "minimum vs = foldr min vs PosInf"

definition first_with :: "score \<Rightarrow> (nat \<times> score) list \<Rightarrow> nat option" where
  "first_with v cvs = map_option fst (find (\<lambda>cv. snd cv = v) cvs)"

fun full_minimax :: "game \<Rightarrow> board \<Rightarrow> nat \<Rightarrow> bool \<Rightarrow> py_error + nat option \<times> score" where
  "full_minimax g board depth maximizingPlayer =
     ebind (find_playable_columns g board) (\<lambda>playable_columns.
     ebind (is_game_over g board) (\<lambda>is_terminal.
       if depth = 0 \<or> is_terminal then
         (if is_terminal then
            ebind (is_winning_pattern g board PLAYER_AI) (\<lambda>w1.
              if w1 then
                Inr (None, Fin (win_score g depth))
              else ebind (is_winning_pattern g board PLAYER_HUMAN) (\<lambda>w2.
                if w2 then
                  Inr (None, Fin (loss_score g depth))
                else Inr (None, Fin 0)))
          else
            ebind (evaluate_board_state g board PLAYER_AI) (\<lambda>(_, s). Inr (None, Fin s)))
       else
         ebind (map_err (\<lambda>col.
                  ebind (find_open_row g board col) (\<lambda>row.
                  ebind (place_disc board row col
                           (if maximizingPlayer then PLAYER_AI else PLAYER_HUMAN)) (\<lambda>child.
                  ebind (full_minimax g child (depth - 1) (\<not> maximizingPlayer)) (\<lambda>(_, v).
                    Inr (col, v)))))
                  playable_columns) (\<lambda>cvs.
           let v = (if maximizingPlayer then maximum (map snd cvs) else minimum (map snd cvs))
           in Inr (first_with v cvs, v))))"

section \<open>Windows\<close>

text \<open>
  Every four-cell window of the board, as the list of its cells \<open>(row, column)\<close>:
  the horizontal windows from left to right, the vertical ones from the bottom up, the
  rising diagonals from the lower left, and the falling diagonals from the upper left.
\<close>

definition windows :: "game \<Rightarrow> (nat \<times> nat) list list" where
  "windows g =
     [map (\<lambda>i. (r, c + i)) [0..<WINNING_LENGTH].
        r \<leftarrow> [0..<row_count g], c \<leftarrow> [0..<column_count g - 3]] @
     [map (\<lambda>i. (r + i, c)) [0..<WINNING_LENGTH].
        c \<leftarrow> [0..<column_count g], r \<leftarrow> [0..<row_count g - 3]] @
     [map (\<lambda>i. (r + i, c + i)) [0..<WINNING_LENGTH].
        r \<leftarrow> [0..<row_count g - 3], c \<leftarrow> [0..<column_count g - 3]] @
     [map (\<lambda>i. (r + 3 - i, c + i)) [0..<WINNING_LENGTH].
        r \<leftarrow> [0..<row_count g - 3], c \<leftarrow> [0..<column_count g - 3]]"

definition cells_at :: "board \<Rightarrow> (nat \<times> nat) list \<Rightarrow> int list" where
  "cells_at board w = map (\<lambda>(r, c). board ! r ! c) w"

text \<open>A window whose first three cells hold the piece and whose fourth cell is empty.\<close>

definition three_then_empty :: "int \<Rightarrow> int list \<Rightarrow> bool" where
  "three_then_empty piece line \<longleftrightarrow> line = [piece, piece, piece, PIECE_EMPTY]"

text \<open>
  The depth policy in the words of the specification: the three increments add up.
\<close>

definition cumulative_depth :: "nat \<Rightarrow> nat \<Rightarrow> nat \<Rightarrow> bool \<Rightarrow> nat" where
  "cumulative_depth base empty_cells total_cells open_three =
     base + (if 2 * empty_cells < total_cells then 1 else 0)
          + (if 4 * empty_cells < total_cells then 1 else 0)
          + (if open_three then 1 else 0)"

section \<open>The parts of the evaluation\<close>

text \<open>The number of cells of the middle column that hold the piece.\<close>

definition center_count :: "game \<Rightarrow> board \<Rightarrow> int \<Rightarrow> nat" where
  "center_count g board piece =
     count_list (map (\<lambda>row. row ! (column_count g div 2)) board) piece"

text \<open>
  The empty cells, anywhere on the board, such that the board with the piece in that
  cell holds a four-in-a-row of the piece.
\<close>

definition immediate_win_cells :: "game \<Rightarrow> board \<Rightarrow> int \<Rightarrow> (nat \<times> nat) list" where
  "immediate_win_cells g board piece =
     filter (\<lambda>(r, c). board ! r ! c = PIECE_EMPTY
               \<and> is_winning_pattern g (board[r := (board ! r)[c := piece]]) piece = Inr True)
       [(r, c). c \<leftarrow> [0..<column_count g], r \<leftarrow> [0..<row_count g]]"

section \<open>Moves on a board of the right shape\<close>

text \<open>The lowest empty row of a column, and the board after a piece is dropped there.\<close>

definition lowest_empty :: "game \<Rightarrow> board \<Rightarrow> nat \<Rightarrow> nat option" where
  "lowest_empty g board col = find (\<lambda>r. board ! r ! col = PIECE_EMPTY) [0..<row_count g]"

definition dropped :: "game \<Rightarrow> board \<Rightarrow> nat \<Rightarrow> int \<Rightarrow> board" where
  "dropped g board col piece =
     (case lowest_empty g board col of
        None \<Rightarrow> board
      | Some r \<Rightarrow> board[r := (board ! r)[col := piece]])"

text \<open>The columns whose top cell is empty, in ascending order.\<close>

definition open_columns :: "game \<Rightarrow> board \<Rightarrow> nat list" where
  "open_columns g board =
     filter (\<lambda>c. board ! (row_count g - 1) ! c = PIECE_EMPTY) [0..<column_count g]"

text \<open>
  The open columns in which a piece of value \<open>PLAYER_AI\<close> completes a four-in-a-row.
\<close>

definition winning_columns :: "game \<Rightarrow> board \<Rightarrow> nat list" where
  "winning_columns g board =
     filter (\<lambda>c. is_winning_pattern g (dropped g board c PLAYER_AI) PLAYER_AI = Inr True)
       (open_columns g board)"

section \<open>Nodes of the search on a board of the right shape\<close>

text \<open>
  The list \<open>find_playable_columns\<close> returns: the winning columns when there are any,
  otherwise the open columns.
\<close>

definition playable :: "game \<Rightarrow> board \<Rightarrow> nat list" where
  "playable g board =
     (if winning_columns g board \<noteq> [] then winning_columns g board else open_columns g board)"

text \<open>
  What \<open>is_game_over\<close> computes: its second test, for \<open>PLAYER_HUMAN\<close>, is a test for the
  value 0 and \<open>is_winning_pattern\<close> answers \<open>False\<close> to it at once.
\<close>

definition game_over :: "game \<Rightarrow> board \<Rightarrow> bool" where
  "game_over g board \<longleftrightarrow>
     is_winning_pattern g board PLAYER_AI = Inr True \<or> open_columns g board = []"

text \<open>The score \<open>evaluate_board_state\<close> returns for \<open>PLAYER_AI\<close>.\<close>

definition static_score :: "game \<Rightarrow> board \<Rightarrow> int" where
  "static_score g board =
     (case evaluate_board_state g board PLAYER_AI of Inr (_, s) \<Rightarrow> s | Inl _ \<Rightarrow> 0)"

text \<open>
  The result of a node that \<open>minimax\<close> does not expand (a terminal node, or one at depth
  0); \<open>None\<close> for a node that it expands.
\<close>

definition direct :: "game \<Rightarrow> board \<Rightarrow> nat \<Rightarrow> (nat option \<times> score) option" where
  "direct g board depth =
     (if game_over g board then
        Some (None, Fin (if is_winning_pattern g board PLAYER_AI = Inr True
                         then win_score g depth else 0))
      else if depth = 0 then Some (None, Fin (static_score g board))
      else None)"

text \<open>
  An invariant of the transposition table: it holds entries for expanded nodes only, and
  the column of an entry is one of the playable columns of its board. The empty table
  has it, and every call of \<open>minimax\<close> keeps it.
\<close>

definition cols_inv :: "game \<Rightarrow> table \<Rightarrow> bool" where
  "cols_inv g T \<longleftrightarrow>
     (\<forall>board depth m c v. T (board, depth, m) = Some (c, v) \<longrightarrow>
        direct g board depth = None \<and> (\<exists>col\<in>set (playable g board). c = Some col))"

text \<open>The pair \<open>(column, value)\<close> that a call of \<open>minimax\<close> returns.\<close>

definition returned :: "search_result \<Rightarrow> py_error + nat option \<times> score" where
  "returned r = (case r of Inl e \<Rightarrow> Inl e | Inr (st, board, c, v) \<Rightarrow> Inr (c, v))"

section \<open>Tables that hold results of the unpruned search\<close>

text \<open>
  A transposition table is sound when every entry, stored under a board, a depth and a
  side, is the pair the unpruned search returns for that board, depth and side.
\<close>

definition sound :: "game \<Rightarrow> table \<Rightarrow> bool" where
  "sound g T \<longleftrightarrow>
     (\<forall>board depth m r. T (board, depth, m) = Some r \<longrightarrow> full_minimax g board depth m = Inr r)"

text \<open>The value of the pair the unpruned search returns.\<close>

definition full_value :: "game \<Rightarrow> board \<Rightarrow> nat \<Rightarrow> bool \<Rightarrow> score" where
  "full_value g board depth m =
     (case full_minimax g board depth m of Inr (_, v) \<Rightarrow> v | Inl _ \<Rightarrow> NegInf)"

section \<open>Test data\<close>

definition g44 :: game where
  "g44 = \<lparr>row_count = 4, column_count = 4\<rparr>"

definition b_full_col0 :: board where
  "b_full_col0 = [[1,0,0,0],[2,0,0,0],[1,0,0,0],[2,0,0,0]]"

definition b_three_open_left :: board where
  "b_three_open_left = [[0,1,1,1],[0,2,2,0],[0,0,0,0],[0,0,0,0]]"

definition b_open_right :: board where
  "b_open_right = [[1,1,1,0],[2,2,0,0],[0,0,0,0],[0,0,0,0]]"

definition b_ten_of_16 :: board where
  "b_ten_of_16 = [[1,2,1,2],[2,1,2,1],[1,2,0,0],[0,0,0,0]]"

definition st0 :: ai_state where
  "st0 = \<lparr>transposition_table = Map.empty, draws = 0\<rparr>"

definition b_human_four :: board where
  "b_human_four = [[1,1,1,1],[2,2,0,0],[0,0,0,0],[0,0,0,0]]"

definition b_ai_four :: board where
  "b_ai_four = [[2,2,2,2],[1,1,1,0],[0,0,0,0],[0,0,0,0]]"

section \<open>Board primitives\<close>

lemma shape_nth_length:
  "shape g board \<Longrightarrow> r < row_count g \<Longrightarrow> length (board ! r) = column_count g"
  by (simp add: shape_def list_all_length)

lemma get_in_range: "i < length xs \<Longrightarrow> get xs (int i) = Inr (xs ! i)"
  by (simp add: get_def)

lemma at_shape:
  "shape g board \<Longrightarrow> r < row_count g \<Longrightarrow> c < column_count g \<Longrightarrow>
   at board (int r) (int c) = Inr (board ! r ! c)"
proof -
  assume s: "shape g board" and r: "r < row_count g" and c: "c < column_count g"
  from s r have "get board (int r) = Inr (board ! r)"
    by (simp add: get_in_range shape_def)
  moreover from c have "get (board ! r) (int c) = Inr (board ! r ! c)"
    by (simp add: get_in_range shape_nth_length [OF s r])
  ultimately show ?thesis by (simp add: at_def ebind_def)
qed

lemma get_too_large: "int (length xs) \<le> i \<Longrightarrow> get xs i = Inl IndexError"
  by (simp add: get_def)

lemma get_too_small: "i < - int (length xs) \<Longrightarrow> get xs i = Inl IndexError"
  by (simp add: get_def)

lemma get_negative:
  "- int (length xs) \<le> i \<Longrightarrow> i < 0 \<Longrightarrow> get xs i = Inr (xs ! nat (int (length xs) + i))"
  by (simp add: get_def)

lemma top_row:
  assumes "shape g board"
  shows "get board (int (row_count g) - 1) = Inr (board ! (row_count g - 1))"
proof -
  from assms have "row_count g - 1 < length board" by (simp add: shape_def)
  from get_in_range [OF this] assms show ?thesis
    by (simp add: shape_def of_nat_diff)
qed

text \<open>
  C9. The claim (an out-of-range column, negative ones included, makes
  \<open>is_column_open\<close> fail) does not hold for the negative indices \<open>-cols .. -1\<close>:
  numpy indexing wraps them around, and the function answers for the column
  \<open>cols + col\<close>. Here column \<open>-4\<close> of a four-column board is column 0, which is full.
\<close>

theorem is_column_open_negative_counterexample:
  "shape g44 b_full_col0 \<and> is_column_open g44 b_full_col0 (- 4) = Inr False
   \<and> is_column_open g44 b_full_col0 (- 1) = Inr True"
  by (simp add: shape_def g44_def b_full_col0_def is_column_open_def at_def get_def
      ebind_def PIECE_EMPTY_def)

text \<open>
  C9, as the code has it. On a board of the game's shape, \<open>is_column_open\<close> raises
  \<open>IndexError\<close> exactly for the columns outside \<open>-cols .. cols-1\<close>; for a column in
  \<open>0 .. cols-1\<close> it tells whether the top cell of that column is empty, and for a column
  in \<open>-cols .. -1\<close> it tells the same of column \<open>cols + col\<close>.
\<close>

theorem is_column_open_index:
  assumes "shape g board"
  shows "(int (column_count g) \<le> col \<or> col < - int (column_count g) \<longrightarrow>
            is_column_open g board col = Inl IndexError)
       \<and> (0 \<le> col \<and> col < int (column_count g) \<longrightarrow>
            is_column_open g board col =
              Inr (board ! (row_count g - 1) ! nat col = PIECE_EMPTY))
       \<and> (- int (column_count g) \<le> col \<and> col < 0 \<longrightarrow>
            is_column_open g board col =
              Inr (board ! (row_count g - 1) ! nat (int (column_count g) + col) = PIECE_EMPTY))"
proof -
  have len: "length (board ! (row_count g - 1)) = column_count g"
    using assms by (simp add: shape_nth_length shape_def)
  have top: "is_column_open g board col =
      ebind (get (board ! (row_count g - 1)) col) (\<lambda>v. Inr (v = PIECE_EMPTY))"
    by (simp add: is_column_open_def at_def top_row [OF assms] ebind_def)
  show ?thesis
    unfolding top get_def len ebind_def by auto
qed

theorem is_column_open_index_witness:
  "shape g44 b_full_col0
   \<and> is_column_open g44 b_full_col0 4 = Inl IndexError
   \<and> is_column_open g44 b_full_col0 (- 5) = Inl IndexError
   \<and> is_column_open g44 b_full_col0 1 = Inr True
   \<and> is_column_open g44 b_full_col0 (- 4) = Inr False"
proof -
  have s: "shape g44 b_full_col0"
    by (simp add: shape_def g44_def b_full_col0_def)
  have "is_column_open g44 b_full_col0 4 = Inl IndexError"
    using is_column_open_index [OF s, of 4] by (simp add: g44_def)
  moreover have "is_column_open g44 b_full_col0 (- 5) = Inl IndexError"
    using is_column_open_index [OF s, of "- 5"] by (simp add: g44_def)
  moreover have "is_column_open g44 b_full_col0 1 = Inr True"
    using is_column_open_index [OF s, of 1]
    by (simp add: g44_def b_full_col0_def PIECE_EMPTY_def)
  moreover have "is_column_open g44 b_full_col0 (- 4) = Inr False"
    using is_column_open_index [OF s, of "- 4"]
    by (simp add: g44_def b_full_col0_def PIECE_EMPTY_def)
  ultimately show ?thesis using s by simp
qed

section \<open>The error monad on boards of the right shape\<close>

lemma ebind_Inr [simp]: "ebind (Inr x) f = f x"
  by (simp add: ebind_def)

lemma ebind_Inl [simp]: "ebind (Inl e) f = Inl e"
  by (simp add: ebind_def)

lemma and_also_Inr [simp]: "and_also (Inr a) (Inr b) = Inr (a \<and> b)"
  by (simp add: and_also_def)

lemma or_else_Inr [simp]: "or_else (Inr a) (Inr b) = Inr (a \<or> b)"
  by (simp add: or_else_def)

lemma any_err_Inr:
  "(\<And>x. x \<in> set xs \<Longrightarrow> p x = Inr (q x)) \<Longrightarrow> any_err p xs = Inr (\<exists>x\<in>set xs. q x)"
  by (induction xs) auto

lemma map_err_Inr:
  "(\<And>x. x \<in> set xs \<Longrightarrow> f x = Inr (h x)) \<Longrightarrow> map_err f xs = Inr (map h xs)"
  by (induction xs) auto

lemma fold_err_Inr:
  "(\<And>s x. x \<in> set xs \<Longrightarrow> f s x = Inr (h x s)) \<Longrightarrow> fold_err f xs s = Inr (fold h xs s)"
  by (induction xs arbitrary: s) auto

lemma fold_err_sum:
  fixes s :: int
  shows "(\<And>s x. x \<in> set xs \<Longrightarrow> f s x = Inr (s + w x)) \<Longrightarrow>
    fold_err f xs s = Inr (s + sum_list (map w xs))"
  by (induction xs arbitrary: s) auto

lemma cell_is_shape:
  "shape g board \<Longrightarrow> r < row_count g \<Longrightarrow> c < column_count g \<Longrightarrow>
   cell_is board r c piece = Inr (board ! r ! c = piece)"
  by (simp add: cell_is_def at_shape)

lemma upt_4: "[0..<4] = [0, 1, 2, 3]" 
  by (simp add: upt_rec)
lemma upt_3: "[0..<3] = [0, 1, 2]" 
  by (simp add: upt_rec)

lemma is_winning_pattern_Inr:
  assumes s: "shape g board"
  shows "\<exists>w. is_winning_pattern g board piece = Inr w"
proof -
  have h: "\<exists>q. any_err (\<lambda>c. any_err (\<lambda>r.
              and_also (cell_is board r c piece)
             (and_also (cell_is board r (c + 1) piece)
             (and_also (cell_is board r (c + 2) piece)
                       (cell_is board r (c + 3) piece))))
            [0..<row_count g]) [0..<column_count g - 3] = Inr q"
    by (rule exI, rule any_err_Inr, rule any_err_Inr) (simp add: cell_is_shape [OF s])
  have v: "\<exists>q. any_err (\<lambda>c. any_err (\<lambda>r.
              and_also (cell_is board r c piece)
             (and_also (cell_is board (r + 1) c piece)
             (and_also (cell_is board (r + 2) c piece)
                       (cell_is board (r + 3) c piece))))
            [0..<row_count g - 3]) [0..<column_count g] = Inr q"
    by (rule exI, rule any_err_Inr, rule any_err_Inr) (simp add: cell_is_shape [OF s])
  have p: "\<exists>q. any_err (\<lambda>c. any_err (\<lambda>r.
              and_also (cell_is board r c piece)
             (and_also (cell_is board (r + 1) (c + 1) piece)
             (and_also (cell_is board (r + 2) (c + 2) piece)
                       (cell_is board (r + 3) (c + 3) piece))))
            [0..<row_count g - 3]) [0..<column_count g - 3] = Inr q"
    by (rule exI, rule any_err_Inr, rule any_err_Inr) (simp add: cell_is_shape [OF s])
  have n: "\<exists>q. any_err (\<lambda>c. any_err (\<lambda>r.
              and_also (cell_is board r c piece)
             (and_also (cell_is board (r - 1) (c + 1) piece)
             (and_also (cell_is board (r - 2) (c + 2) piece)
                       (cell_is board (r - 3) (c + 3) piece))))
            [3..<row_count g]) [0..<column_count g - 3] = Inr q"
    by (rule exI, rule any_err_Inr, rule any_err_Inr)
      (simp add: cell_is_shape [OF s] less_imp_diff_less)
  from h v p n show ?thesis
    unfolding is_winning_pattern_def by (auto simp: or_else_def)
qed

lemma near_cond_shape:
  assumes s: "shape g board"
    and pos: "\<And>i. i < 4 \<Longrightarrow> fst (pos i) < row_count g \<and> snd (pos i) < column_count g"
    and p: "piece \<noteq> PIECE_EMPTY"
  shows "near_cond board piece pos =
         Inr (three_then_empty piece (cells_at board (map pos [0..<WINNING_LENGTH])))"
proof -
  have flags: "map_err (\<lambda>i. cell_is board (fst (pos i)) (snd (pos i)) piece) [0..<WINNING_LENGTH - 1]
     = Inr (map (\<lambda>i. board ! fst (pos i) ! snd (pos i) = piece) [0..<WINNING_LENGTH - 1])"
    by (rule map_err_Inr) (simp add: cell_is_shape [OF s] pos WINNING_LENGTH_def)
  have cells: "map_err (\<lambda>i. at board (int (fst (pos i))) (int (snd (pos i)))) [0..<WINNING_LENGTH]
     = Inr (map (\<lambda>i. board ! fst (pos i) ! snd (pos i)) [0..<WINNING_LENGTH])"
    by (rule map_err_Inr) (simp add: at_shape [OF s] pos WINNING_LENGTH_def)
  show ?thesis
    unfolding near_cond_def flags cells using p
    by (auto simp: three_then_empty_def cells_at_def WINNING_LENGTH_def upt_4 upt_3
        split: prod.splits)
qed

lemma near_scan:
  assumes s: "shape g board" and p: "piece \<noteq> PIECE_EMPTY"
    and pos: "\<And>r c i. r \<in> set rs \<Longrightarrow> c \<in> set cs \<Longrightarrow> i < 4 \<Longrightarrow>
                fst (pos r c i) < row_count g \<and> snd (pos r c i) < column_count g"
  shows "any_err (\<lambda>c. any_err (\<lambda>r. near_cond board piece (pos r c)) rs) cs
       = Inr (\<exists>c\<in>set cs. \<exists>r\<in>set rs.
               three_then_empty piece (cells_at board (map (pos r c) [0..<WINNING_LENGTH])))"
  by (rule any_err_Inr, rule any_err_Inr) (simp add: near_cond_shape [OF s _ p] pos)

lemma ex_windows:
  "(\<exists>w\<in>set (windows g). P w) \<longleftrightarrow>
     (\<exists>c\<in>set [0..<column_count g - 3]. \<exists>r\<in>set [0..<row_count g].
        P (map (\<lambda>i. (r, c + i)) [0..<WINNING_LENGTH]))
   \<or> (\<exists>c\<in>set [0..<column_count g]. \<exists>r\<in>set [0..<row_count g - 3].
        P (map (\<lambda>i. (r + i, c)) [0..<WINNING_LENGTH]))
   \<or> (\<exists>c\<in>set [0..<column_count g - 3]. \<exists>r\<in>set [0..<row_count g - 3].
        P (map (\<lambda>i. (r + i, c + i)) [0..<WINNING_LENGTH]))
   \<or> (\<exists>c\<in>set [0..<column_count g - 3]. \<exists>r\<in>set [3..<row_count g].
        P (map (\<lambda>i. (r - i, c + i)) [0..<WINNING_LENGTH]))"
proof -
  have neg: "(\<exists>r\<in>set [3..<row_count g]. Q r) \<longleftrightarrow> (\<exists>r\<in>set [0..<row_count g - 3]. Q (r + 3))" for Q
  proof
    assume "\<exists>r\<in>set [3..<row_count g]. Q r"
    then obtain r where "3 \<le> r" "r < row_count g" "Q r" by auto
    then have "r - 3 < row_count g - 3" "Q (r - 3 + 3)" by auto
    then show "\<exists>r\<in>set [0..<row_count g - 3]. Q (r + 3)" by auto
  next
    assume "\<exists>r\<in>set [0..<row_count g - 3]. Q (r + 3)"
    then obtain r where "r < row_count g - 3" "Q (r + 3)" by auto
    then have "3 \<le> r + 3" "r + 3 < row_count g" by auto
    with \<open>Q (r + 3)\<close> show "\<exists>r\<in>set [3..<row_count g]. Q r" by (metis atLeastLessThan_iff set_upt)
  qed
  have comp: "(\<exists>w\<in>set (concat (map (\<lambda>r. map (f r) cs) rs)). P w) \<longleftrightarrow>
      (\<exists>c\<in>set cs. \<exists>r\<in>set rs. P (f r c))" for f :: "nat \<Rightarrow> nat \<Rightarrow> (nat \<times> nat) list" and cs rs
    by auto
  show ?thesis
    unfolding neg windows_def set_append bex_Un comp by auto

qed

lemma is_near_win_scan:
  assumes s: "shape g board"
  shows "is_near_win g board =
         Inr (\<exists>piece\<in>set [PIECE_HUMAN, PIECE_AI]. \<exists>w\<in>set (windows g).
               three_then_empty piece (cells_at board w))"
  unfolding is_near_win_def
proof (rule any_err_Inr)
  fix piece assume "piece \<in> set [PIECE_HUMAN, PIECE_AI]"
  then have p: "piece \<noteq> PIECE_EMPTY" by (auto simp: consts_defs)
  note scan = near_scan [OF s p]
  show "or_else
          (any_err (\<lambda>c. any_err (\<lambda>r. near_cond board piece (\<lambda>i. (r, c + i)))
            [0..<row_count g]) [0..<column_count g - 3])
       (or_else
          (any_err (\<lambda>c. any_err (\<lambda>r. near_cond board piece (\<lambda>i. (r + i, c)))
            [0..<row_count g - 3]) [0..<column_count g])
       (or_else
          (any_err (\<lambda>c. any_err (\<lambda>r. near_cond board piece (\<lambda>i. (r + i, c + i)))
            [0..<row_count g - 3]) [0..<column_count g - 3])
          (any_err (\<lambda>c. any_err (\<lambda>r. near_cond board piece (\<lambda>i. (r - i, c + i)))
            [3..<row_count g]) [0..<column_count g - 3])))
     = Inr (\<exists>w\<in>set (windows g). three_then_empty piece (cells_at board w))"
  proof -
    have 1: "any_err (\<lambda>c. any_err (\<lambda>r. near_cond board piece (\<lambda>i. (r, c + i)))
            [0..<row_count g]) [0..<column_count g - 3]
       = Inr (\<exists>c\<in>set [0..<column_count g - 3]. \<exists>r\<in>set [0..<row_count g].
               three_then_empty piece (cells_at board (map (\<lambda>i. (r, c + i)) [0..<WINNING_LENGTH])))"
      by (rule scan) auto
    have 2: "any_err (\<lambda>c. any_err (\<lambda>r. near_cond board piece (\<lambda>i. (r + i, c)))
            [0..<row_count g - 3]) [0..<column_count g]
       = Inr (\<exists>c\<in>set [0..<column_count g]. \<exists>r\<in>set [0..<row_count g - 3].
               three_then_empty piece (cells_at board (map (\<lambda>i. (r + i, c)) [0..<WINNING_LENGTH])))"
      by (rule scan) auto
    have 3: "any_err (\<lambda>c. any_err (\<lambda>r. near_cond board piece (\<lambda>i. (r + i, c + i)))
            [0..<row_count g - 3]) [0..<column_count g - 3]
       = Inr (\<exists>c\<in>set [0..<column_count g - 3]. \<exists>r\<in>set [0..<row_count g - 3].
               three_then_empty piece (cells_at board (map (\<lambda>i. (r + i, c + i)) [0..<WINNING_LENGTH])))"
      by (rule scan) auto
    have 4: "any_err (\<lambda>c. any_err (\<lambda>r. near_cond board piece (\<lambda>i. (r - i, c + i)))
            [3..<row_count g]) [0..<column_count g - 3]
       = Inr (\<exists>c\<in>set [0..<column_count g - 3]. \<exists>r\<in>set [3..<row_count g].
               three_then_empty piece (cells_at board (map (\<lambda>i. (r - i, c + i)) [0..<WINNING_LENGTH])))"
      by (rule scan) auto
    show ?thesis
      unfolding 1 2 3 4 or_else_Inr ex_windows ..
  qed
qed

lemma is_near_win_total:
  "shape g board \<Longrightarrow> \<exists>n. is_near_win g board = Inr n"
  by (simp add: is_near_win_scan)

section \<open>The near-win test\<close>

text \<open>
  C6. The claim: \<open>hasOpenThree\<close> holds exactly when some four-cell window has exactly
  three cells of the piece and at least one empty cell, wherever in the window the three
  are. The code attempts this test (it looks for \<open>PIECE_EMPTY\<close> among all four cells and
  compares a sum of matches with 3) but sums over \<open>range(WINNING_LENGTH - 1)\<close>, the first
  three cells only, so it misses every window whose empty cell is not the last one. On
  this board the bottom row is \<open>[0, 1, 1, 1]\<close>: its window has exactly three human pieces
  and an empty cell, the human wins at once in column 0, and \<open>is_near_win\<close> returns
  \<open>False\<close>.
\<close>

theorem is_near_win_misses_open_left:
  "shape g44 b_three_open_left
   \<and> [(0, 0), (0, 1), (0, 2), (0, 3)] \<in> set (windows g44)
   \<and> count_list (cells_at b_three_open_left [(0, 0), (0, 1), (0, 2), (0, 3)]) PIECE_HUMAN = 3
   \<and> PIECE_EMPTY \<in> set (cells_at b_three_open_left [(0, 0), (0, 1), (0, 2), (0, 3)])
   \<and> is_winning_pattern g44 (dropped g44 b_three_open_left 0 PIECE_HUMAN) PIECE_HUMAN = Inr True
   \<and> is_near_win g44 b_three_open_left = Inr False"
  by code_simp

section \<open>The depth policy\<close>

text \<open>
  C3. The claim (the increments add up: one for a board more than half filled, one more
  beyond 75%, and one for an open three whatever the fill) fails on the code, whose
  branches are alternatives. This board is less than half filled and has an open three:
  the claim gives 7 + 1, the code returns 7 + 3.
\<close>

theorem calculate_dynamic_depth_cumulative_counterexample:
  "shape g44 b_open_right
   \<and> is_near_win g44 b_open_right = Inr True
   \<and> cumulative_depth 7 (count_empty b_open_right) (row_count g44 * column_count g44) True = 8
   \<and> calculate_dynamic_depth g44 b_open_right = Inr 10"
  by code_simp

text \<open>
  C3, as the code has it. The base depth is the constant 7, not a configured value, and
  the branches do not add up. On a board (with at least one cell) that is at most half
  filled the depth is 7 + 3 when \<open>is_near_win\<close> holds and 7 otherwise; on a board that
  is more than half but at most 75% filled it is 7 + 1. (Nothing is said here of a board
  that is more than 75% filled.)
\<close>

theorem calculate_dynamic_depth_cases:
  assumes s: "shape g board" and c: "0 < column_count g"
  shows "(row_count g * column_count g \<le> 2 * count_empty board \<longrightarrow>
            calculate_dynamic_depth g board =
              Inr (if is_near_win g board = Inr True then 7 + 3 else 7))
       \<and> (2 * count_empty board < row_count g * column_count g
          \<and> row_count g * column_count g \<le> 4 * count_empty board \<longrightarrow>
            calculate_dynamic_depth g board = Inr (7 + 1))"
proof -
  from s c have t: "row_count g * column_count g \<noteq> 0" by (simp add: shape_def)
  from is_near_win_total [OF s] obtain n where n: "is_near_win g board = Inr n" ..
  show ?thesis
    using t by (simp add: calculate_dynamic_depth_def Let_def n)
qed

theorem calculate_dynamic_depth_cases_witness:
  "shape g44 b_open_right \<and> 0 < column_count g44
   \<and> row_count g44 * column_count g44 \<le> 2 * count_empty b_open_right
   \<and> is_near_win g44 b_open_right = Inr True
   \<and> calculate_dynamic_depth g44 b_open_right = Inr 10
   \<and> shape g44 b_ten_of_16
   \<and> 2 * count_empty b_ten_of_16 < row_count g44 * column_count g44
   \<and> row_count g44 * column_count g44 \<le> 4 * count_empty b_ten_of_16
   \<and> calculate_dynamic_depth g44 b_ten_of_16 = Inr 8"
proof -
  have s1: "shape g44 b_open_right" and s2: "shape g44 b_ten_of_16" by code_simp+
  have c: "0 < column_count g44" by code_simp
  have h1: "row_count g44 * column_count g44 \<le> 2 * count_empty b_open_right"
    and n1: "is_near_win g44 b_open_right = Inr True" by code_simp+
  have h2: "2 * count_empty b_ten_of_16 < row_count g44 * column_count g44"
      "row_count g44 * column_count g44 \<le> 4 * count_empty b_ten_of_16" by code_simp+
  from calculate_dynamic_depth_cases [OF s1 c] h1 n1
  have r1: "calculate_dynamic_depth g44 b_open_right = Inr 10" by simp
  from calculate_dynamic_depth_cases [OF s2 c] h2
  have r2: "calculate_dynamic_depth g44 b_ten_of_16 = Inr 8" by simp
  from s1 s2 c h1 n1 h2 r1 r2 show ?thesis by simp
qed

section \<open>The evaluation function\<close>

lemma column_of_shape:
  assumes s: "shape g board" and c: "c < column_count g"
  shows "column_of board (int c) = Inr (map (\<lambda>row. row ! c) board)"
  unfolding column_of_def
proof (rule map_err_Inr)
  fix row assume "row \<in> set board"
  with s have "length row = column_count g" by (auto simp: shape_def list_all_iff)
  with c show "get row (int c) = Inr (row ! c)" by (simp add: get_in_range)
qed

lemma set_cell_shape:
  assumes s: "shape g board" and r: "r < row_count g" and c: "c < column_count g"
  shows "set_cell board r c v = Inr (board[r := (board ! r)[c := v]])"
  using s r c by (simp add: set_cell_def shape_nth_length) (simp add: shape_def)

lemma shape_update:
  assumes s: "shape g board" and r: "r < row_count g"
  shows "shape g (board[r := (board ! r)[c := v]])"
  using s r shape_nth_length [OF s r]
  by (auto simp: shape_def list_all_length nth_list_update)

lemma update_restore:
  assumes "r < length board" "c < length (board ! r)" "board ! r ! c = v"
  shows "(board[r := (board ! r)[c := p]])[r := ((board[r := (board ! r)[c := p]]) ! r)[c := v]] = board"
proof -
  from assms(3) have "(board ! r)[c := v] = board ! r" by auto
  with assms(1) show ?thesis by simp
qed

lemma try_cell_shape:
  assumes s: "shape g board" and r: "r < row_count g" and c: "c < column_count g"
  shows "try_cell g piece c (board, score) r =
         Inr (board, score + (if board ! r ! c = PIECE_EMPTY
               \<and> is_winning_pattern g (board[r := (board ! r)[c := piece]]) piece = Inr True
             then 1000000 else 0))"
proof (cases "board ! r ! c = PIECE_EMPTY")
  case False
  then show ?thesis by (simp add: try_cell_def at_shape [OF s r c])
next
  case True
  let ?b1 = "board[r := (board ! r)[c := piece]]"
  have s1: "shape g ?b1" by (rule shape_update [OF s r])
  from is_winning_pattern_Inr [OF s1] obtain w where w: "is_winning_pattern g ?b1 piece = Inr w" ..
  have len: "r < length board" "c < length (board ! r)"
    using s r c shape_nth_length [OF s r] by (simp_all add: shape_def)
  have restored: "?b1[r := (?b1 ! r)[c := PIECE_EMPTY]] = board"
    by (rule update_restore [OF len True])
  have undo: "set_cell ?b1 r c PIECE_EMPTY = Inr board"
    unfolding set_cell_shape [OF s1 r c] restored ..
  show ?thesis
    by (simp add: try_cell_def at_shape [OF s r c] True set_cell_shape [OF s r c] w undo)
qed

lemma fold_err_keep:
  fixes s :: int
  assumes "\<And>s x. x \<in> set xs \<Longrightarrow> f (b, s) x = Inr (b, s + w x)"
  shows "fold_err f xs (b, s) = Inr (b, s + sum_list (map w xs))"
  using assms by (induction xs arbitrary: s) auto

lemma take_drop_nth:
  "c + n \<le> length xs \<Longrightarrow> take n (drop c xs) = map (\<lambda>i. xs ! (c + i)) [0..<n]"
  by (rule nth_equalityI) simp_all

lemma sum_list_if_filter:
  "sum_list (map (\<lambda>x. if P x then k else 0) xs) = k * int (length (filter P xs))"
  by (induction xs) (simp_all add: algebra_simps)

lemma sum_list_nested:
  fixes F :: "'a \<Rightarrow> int"
  shows "sum_list (map (\<lambda>x. sum_list (map (\<lambda>y. F (f x y)) ys)) xs)
       = sum_list (map F (concat (map (\<lambda>x. map (f x) ys) xs)))"
  by (induction xs) (simp_all add: o_def)

lemma immediate_loop:
  assumes s: "shape g board"
  shows "fold_err (\<lambda>s c. fold_err (try_cell g piece c) [0..<row_count g] s)
           [0..<column_count g] (board, score)
       = Inr (board, score + 1000000 * int (length (immediate_win_cells g board piece)))"
proof -
  let ?bonus = "\<lambda>(r, c). if board ! r ! c = PIECE_EMPTY
               \<and> is_winning_pattern g (board[r := (board ! r)[c := piece]]) piece = Inr True
             then 1000000 else (0::int)"
  have inner: "fold_err (try_cell g piece c) [0..<row_count g] (board, sc)
      = Inr (board, sc + sum_list (map (\<lambda>r. ?bonus (r, c)) [0..<row_count g]))"
    if c: "c \<in> set [0..<column_count g]" for c sc
  proof (rule fold_err_keep)
    fix sc' r assume "r \<in> set [0..<row_count g]"
    with c show "try_cell g piece c (board, sc') r = Inr (board, sc' + ?bonus (r, c))"
      by (simp add: try_cell_shape [OF s] split del: if_split)
  qed
  have "fold_err (\<lambda>s c. fold_err (try_cell g piece c) [0..<row_count g] s)
           [0..<column_count g] (board, score)
      = Inr (board, score + sum_list (map (\<lambda>c. sum_list (map (\<lambda>r. ?bonus (r, c)) [0..<row_count g]))
           [0..<column_count g]))"
    by (rule fold_err_keep) (simp add: inner)
  also have "sum_list (map (\<lambda>c. sum_list (map (\<lambda>r. ?bonus (r, c)) [0..<row_count g]))
           [0..<column_count g])
     = sum_list (map ?bonus (concat (map (\<lambda>c. map (\<lambda>r. (r, c)) [0..<row_count g]) [0..<column_count g])))"
    by (rule sum_list_nested [where f = "\<lambda>c r. (r, c)"])
  also have "\<dots> = 1000000 * int (length (immediate_win_cells g board piece))"
    unfolding immediate_win_cells_def
    by (simp add: sum_list_if_filter [symmetric] case_prod_unfold)
  finally show ?thesis .
qed

lemma horizontal_loop:
  assumes s: "shape g board"
  shows "fold_err (\<lambda>score r.
              ebind (get board (int r)) (\<lambda>row_array.
                fold_err (\<lambda>score c.
                    Inr (score + assess_line (take WINNING_LENGTH (drop c row_array)) piece))
                  [0..<column_count g - 3] score))
              [0..<row_count g] score
     = Inr (score + sum_list (map (\<lambda>w. assess_line (cells_at board w) piece)
          (concat (map (\<lambda>r. map (\<lambda>c. map (\<lambda>i. (r, c + i)) [0..<WINNING_LENGTH])
             [0..<column_count g - 3]) [0..<row_count g]))))"
proof -
  let ?F = "\<lambda>w. assess_line (cells_at board w) piece"
  let ?f = "\<lambda>r c. map (\<lambda>i. (r, c + i)) [0..<WINNING_LENGTH]"
  have inner: "ebind (get board (int r)) (\<lambda>row_array.
                fold_err (\<lambda>score c.
                    Inr (score + assess_line (take WINNING_LENGTH (drop c row_array)) piece))
                  [0..<column_count g - 3] sc)
      = Inr (sc + sum_list (map (\<lambda>c. ?F (?f r c)) [0..<column_count g - 3]))"
    if r: "r \<in> set [0..<row_count g]" for r sc
  proof -
    from r s have g: "get board (int r) = Inr (board ! r)"
      by (simp add: get_in_range shape_def)
    from r have len: "length (board ! r) = column_count g"
      by (simp add: shape_nth_length [OF s])
    have "fold_err (\<lambda>score c.
              Inr (score + assess_line (take WINNING_LENGTH (drop c (board ! r))) piece))
            [0..<column_count g - 3] sc
        = Inr (sc + sum_list (map (\<lambda>c. ?F (?f r c)) [0..<column_count g - 3]))"
    proof (rule fold_err_sum)
      fix sc' c assume "c \<in> set [0..<column_count g - 3]"
      then have "c + WINNING_LENGTH \<le> length (board ! r)"
        by (simp add: len WINNING_LENGTH_def)
      then show "Inr (sc' + assess_line (take WINNING_LENGTH (drop c (board ! r))) piece)
          = Inr (sc' + ?F (?f r c))"
        by (simp add: take_drop_nth cells_at_def o_def)
    qed
    with g show ?thesis by simp
  qed
  have "fold_err (\<lambda>score r.
              ebind (get board (int r)) (\<lambda>row_array.
                fold_err (\<lambda>score c.
                    Inr (score + assess_line (take WINNING_LENGTH (drop c row_array)) piece))
                  [0..<column_count g - 3] score))
              [0..<row_count g] score
      = Inr (score + sum_list (map (\<lambda>r. sum_list (map (\<lambda>c. ?F (?f r c)) [0..<column_count g - 3]))
            [0..<row_count g]))"
    by (rule fold_err_sum) (rule inner)
  then show ?thesis unfolding sum_list_nested [where F = ?F and f = ?f] .
qed

lemma vertical_loop:
  assumes s: "shape g board"
  shows "fold_err (\<lambda>score c.
              ebind (column_of board (int c)) (\<lambda>col_array.
                fold_err (\<lambda>score r.
                    Inr (score + assess_line (take WINNING_LENGTH (drop r col_array)) piece))
                  [0..<row_count g - 3] score))
              [0..<column_count g] score
     = Inr (score + sum_list (map (\<lambda>w. assess_line (cells_at board w) piece)
          (concat (map (\<lambda>c. map (\<lambda>r. map (\<lambda>i. (r + i, c)) [0..<WINNING_LENGTH])
             [0..<row_count g - 3]) [0..<column_count g]))))"
proof -
  let ?F = "\<lambda>w. assess_line (cells_at board w) piece"
  let ?f = "\<lambda>c r. map (\<lambda>i. (r + i, c)) [0..<WINNING_LENGTH]"
  have inner: "ebind (column_of board (int c)) (\<lambda>col_array.
                fold_err (\<lambda>score r.
                    Inr (score + assess_line (take WINNING_LENGTH (drop r col_array)) piece))
                  [0..<row_count g - 3] sc)
      = Inr (sc + sum_list (map (\<lambda>r. ?F (?f c r)) [0..<row_count g - 3]))"
    if c: "c \<in> set [0..<column_count g]" for c sc
  proof -
    let ?col = "map (\<lambda>row. row ! c) board"
    from c have g: "column_of board (int c) = Inr ?col"
      by (simp add: column_of_shape [OF s])
    from s have len: "length board = row_count g" by (simp add: shape_def)
    have "fold_err (\<lambda>score r.
              Inr (score + assess_line (take WINNING_LENGTH (drop r ?col)) piece))
            [0..<row_count g - 3] sc
        = Inr (sc + sum_list (map (\<lambda>r. ?F (?f c r)) [0..<row_count g - 3]))"
    proof (rule fold_err_sum)
      fix sc' r assume "r \<in> set [0..<row_count g - 3]"
      then have "r + WINNING_LENGTH \<le> length ?col"
        by (simp add: len WINNING_LENGTH_def)
      then show "Inr (sc' + assess_line (take WINNING_LENGTH (drop r ?col)) piece)
          = Inr (sc' + ?F (?f c r))"
        by (simp add: take_drop_nth cells_at_def o_def WINNING_LENGTH_def upt_4)
    qed
    with g show ?thesis by simp
  qed
  have "fold_err (\<lambda>score c.
              ebind (column_of board (int c)) (\<lambda>col_array.
                fold_err (\<lambda>score r.
                    Inr (score + assess_line (take WINNING_LENGTH (drop r col_array)) piece))
                  [0..<row_count g - 3] score))
              [0..<column_count g] score
      = Inr (score + sum_list (map (\<lambda>c. sum_list (map (\<lambda>r. ?F (?f c r)) [0..<row_count g - 3]))
            [0..<column_count g]))"
    by (rule fold_err_sum) (rule inner)
  then show ?thesis unfolding sum_list_nested [where F = ?F and f = ?f] .
qed

lemma diagonal_loop:
  assumes s: "shape g board"
    and pos: "\<And>r c i. r < row_count g - 3 \<Longrightarrow> c < column_count g - 3 \<Longrightarrow> i < 4 \<Longrightarrow>
               fst (pos r c i) < row_count g \<and> snd (pos r c i) < column_count g"
  shows "fold_err (\<lambda>score r. fold_err (\<lambda>score c.
                ebind (map_err (\<lambda>i. at board (int (fst (pos r c i))) (int (snd (pos r c i))))
                         [0..<WINNING_LENGTH]) (\<lambda>line_segment.
                  Inr (score + assess_line line_segment piece)))
              [0..<column_count g - 3] score)
              [0..<row_count g - 3] score
     = Inr (score + sum_list (map (\<lambda>w. assess_line (cells_at board w) piece)
          (concat (map (\<lambda>r. map (\<lambda>c. map (pos r c) [0..<WINNING_LENGTH])
             [0..<column_count g - 3]) [0..<row_count g - 3]))))"
proof -
  let ?F = "\<lambda>w. assess_line (cells_at board w) piece"
  let ?f = "\<lambda>r c. map (pos r c) [0..<WINNING_LENGTH]"
  have cell: "ebind (map_err (\<lambda>i. at board (int (fst (pos r c i))) (int (snd (pos r c i))))
                         [0..<WINNING_LENGTH]) (\<lambda>line_segment.
                  Inr (sc + assess_line line_segment piece))
      = Inr (sc + ?F (?f r c))"
    if r: "r \<in> set [0..<row_count g - 3]" and c: "c \<in> set [0..<column_count g - 3]" for r c sc
  proof -
    have "map_err (\<lambda>i. at board (int (fst (pos r c i))) (int (snd (pos r c i)))) [0..<WINNING_LENGTH]
        = Inr (map (\<lambda>i. board ! fst (pos r c i) ! snd (pos r c i)) [0..<WINNING_LENGTH])"
      using r c by (intro map_err_Inr) (simp add: at_shape [OF s] pos WINNING_LENGTH_def)
    then show ?thesis by (simp add: cells_at_def o_def case_prod_unfold)
  qed
  have inner: "fold_err (\<lambda>score c.
                ebind (map_err (\<lambda>i. at board (int (fst (pos r c i))) (int (snd (pos r c i))))
                         [0..<WINNING_LENGTH]) (\<lambda>line_segment.
                  Inr (score + assess_line line_segment piece)))
              [0..<column_count g - 3] sc
      = Inr (sc + sum_list (map (\<lambda>c. ?F (?f r c)) [0..<column_count g - 3]))"
    if r: "r \<in> set [0..<row_count g - 3]" for r sc
    by (rule fold_err_sum) (rule cell [OF r])
  have "fold_err (\<lambda>score r. fold_err (\<lambda>score c.
                ebind (map_err (\<lambda>i. at board (int (fst (pos r c i))) (int (snd (pos r c i))))
                         [0..<WINNING_LENGTH]) (\<lambda>line_segment.
                  Inr (score + assess_line line_segment piece)))
              [0..<column_count g - 3] score)
              [0..<row_count g - 3] score
      = Inr (score + sum_list (map (\<lambda>r. sum_list (map (\<lambda>c. ?F (?f r c)) [0..<column_count g - 3]))
            [0..<row_count g - 3]))"
    by (rule fold_err_sum) (rule inner)
  then show ?thesis unfolding sum_list_nested [where F = ?F and f = ?f] .
qed

lemma evaluate_decomp:
  assumes s: "shape g board" and c0: "0 < column_count g"
  shows "evaluate_board_state g board piece =
     Inr (board, int (center_count g board piece) * 3
        + 1000000 * int (length (immediate_win_cells g board piece))
        + sum_list (map (\<lambda>w. assess_line (cells_at board w) piece) (windows g)))"
proof -
  from c0 have "column_count g div 2 < column_count g" by simp
  then have center: "column_of board (int (column_count g div 2))
      = Inr (map (\<lambda>row. row ! (column_count g div 2)) board)"
    by (rule column_of_shape [OF s])
  have d1: "fold_err (\<lambda>score r. fold_err (\<lambda>score c.
                ebind (map_err (\<lambda>i. at board (int (r + i)) (int (c + i)))
                         [0..<WINNING_LENGTH]) (\<lambda>line_segment.
                  Inr (score + assess_line line_segment piece)))
              [0..<column_count g - 3] score)
              [0..<row_count g - 3] score
     = Inr (score + sum_list (map (\<lambda>w. assess_line (cells_at board w) piece)
          (concat (map (\<lambda>r. map (\<lambda>c. map (\<lambda>i. (r + i, c + i)) [0..<WINNING_LENGTH])
             [0..<column_count g - 3]) [0..<row_count g - 3]))))" for score
  proof -
    have "\<And>r c i. r < row_count g - 3 \<Longrightarrow> c < column_count g - 3 \<Longrightarrow> i < 4 \<Longrightarrow>
        fst (r + i, c + i) < row_count g \<and> snd (r + i, c + i) < column_count g" by auto
    from diagonal_loop [where pos = "\<lambda>r c i. (r + i, c + i)", OF s this]
    show ?thesis unfolding fst_conv snd_conv .
  qed
  have d2: "fold_err (\<lambda>score r. fold_err (\<lambda>score c.
                ebind (map_err (\<lambda>i. at board (int (r + 3 - i)) (int (c + i)))
                         [0..<WINNING_LENGTH]) (\<lambda>line_segment.
                  Inr (score + assess_line line_segment piece)))
              [0..<column_count g - 3] score)
              [0..<row_count g - 3] score
     = Inr (score + sum_list (map (\<lambda>w. assess_line (cells_at board w) piece)
          (concat (map (\<lambda>r. map (\<lambda>c. map (\<lambda>i. (r + 3 - i, c + i)) [0..<WINNING_LENGTH])
             [0..<column_count g - 3]) [0..<row_count g - 3]))))" for score
  proof -
    have "\<And>r c i. r < row_count g - 3 \<Longrightarrow> c < column_count g - 3 \<Longrightarrow> i < 4 \<Longrightarrow>
        fst (r + 3 - i, c + i) < row_count g \<and> snd (r + 3 - i, c + i) < column_count g" by auto
    from diagonal_loop [where pos = "\<lambda>r c i. (r + 3 - i, c + i)", OF s this]
    show ?thesis unfolding fst_conv snd_conv .
  qed
  show ?thesis
    unfolding evaluate_board_state_def center ebind_Inr immediate_loop [OF s] prod.case
      horizontal_loop [OF s] vertical_loop [OF s] d1 d2
    by (simp add: windows_def center_count_def)
qed

lemma assess_line_bounds: "- 25 \<le> assess_line seg piece \<and> assess_line seg piece \<le> 1000"
  by (simp add: assess_line_def Let_def)

lemma sum_list_bounds:
  fixes F :: "'a \<Rightarrow> int"
  assumes "\<And>x. lo \<le> F x \<and> F x \<le> hi"
  shows "lo * int (length xs) \<le> sum_list (map F xs) \<and> sum_list (map F xs) \<le> hi * int (length xs)"
proof (induction xs)
  case Nil
  then show ?case by simp
next
  case (Cons x xs)
  with assms [of x] show ?case by (simp add: algebra_simps)
qed

lemma length_windows:
  "length (windows g) =
     row_count g * (column_count g - 3) + column_count g * (row_count g - 3)
     + 2 * ((row_count g - 3) * (column_count g - 3))"
  by (simp add: windows_def length_concat o_def sum_list_triv)

lemma length_windows_le:
  assumes "row_count g \<le> 14" "column_count g \<le> 15"
  shows "length (windows g) \<le> 597"
proof -
  have "row_count g * (column_count g - 3) \<le> 14 * 12"
    using assms by (intro mult_le_mono) auto
  moreover have "column_count g * (row_count g - 3) \<le> 15 * 11"
    using assms by (intro mult_le_mono) auto
  moreover have "(row_count g - 3) * (column_count g - 3) \<le> 11 * 12"
    using assms by (intro mult_le_mono) auto
  ultimately show ?thesis unfolding length_windows by linarith
qed

lemma center_count_le: "shape g board \<Longrightarrow> center_count g board piece \<le> row_count g"
  using count_le_length [of "map (\<lambda>row. row ! (column_count g div 2)) board" piece]
  by (simp add: center_count_def shape_def)

lemma evaluate_bounds:
  assumes s: "shape g board" and c0: "0 < column_count g"
    and r: "row_count g \<le> 14" and c: "column_count g \<le> 15"
    and k: "length (immediate_win_cells g board piece) \<le> 9"
  shows "\<exists>score. evaluate_board_state g board piece = Inr (board, score)
           \<and> loss_score g depth < score \<and> score < win_score g depth"
proof -
  let ?W = "sum_list (map (\<lambda>w. assess_line (cells_at board w) piece) (windows g))"
  let ?K = "int (length (immediate_win_cells g board piece))"
  let ?C = "int (center_count g board piece)"
  have w: "- 25 * int (length (windows g)) \<le> ?W \<and> ?W \<le> 1000 * int (length (windows g))"
    by (rule sum_list_bounds) (rule assess_line_bounds)
  from length_windows_le [OF r c] have lw: "int (length (windows g)) \<le> 597" by simp
  from center_count_le [OF s, of piece] r have cc: "?C \<le> 14" by linarith
  from k have kk: "?K \<le> 9" by simp
  have "row_count g * column_count g \<le> 14 * 15"
    using r c by (intro mult_le_mono) auto
  then have rc: "int (row_count g * column_count g) \<le> 210" by linarith
  have lo: "loss_score g depth < ?C * 3 + 1000000 * ?K + ?W"
    using w lw rc by (simp add: loss_score_def NEGATIVE_def)
  have hi: "?C * 3 + 1000000 * ?K + ?W < win_score g depth"
    using w lw rc cc kk by (simp add: win_score_def POSITIVE_def)
  from evaluate_decomp [OF s c0, of piece] lo hi show ?thesis by simp
qed

lemma terminal_scores_mono:
  "d1 < d2 \<Longrightarrow> win_score g d1 < win_score g d2 \<and> loss_score g d2 < loss_score g d1"
  by (simp add: win_score_def loss_score_def)


text \<open>
  C4. The claim (the score is the center-column bonus plus the window scores, and nothing
  else) fails on the code: \<open>evaluate_board_state\<close> also adds 1000000 for every empty
  cell that would complete a four-in-a-row for the piece. On this board the bonus and the
  windows give 53, and the function returns 1000053.
\<close>

theorem evaluate_board_state_extra_counterexample:
  "shape g44 b_open_right
   \<and> int (center_count g44 b_open_right PIECE_HUMAN) * 3
       + sum_list (map (\<lambda>w. assess_line (cells_at b_open_right w) PIECE_HUMAN) (windows g44))
       = 53
   \<and> evaluate_board_state g44 b_open_right PIECE_HUMAN = Inr (b_open_right, 1000053)"
  by code_simp

text \<open>
  C4, as the code has it. On a board of the game's shape (with at least one column) the
  score is the sum of three parts: the number of cells of the middle column that hold the
  piece, times 3; 1000000 for every empty cell of the board (playable or not) such that
  the board with the piece in that cell holds a four-in-a-row of the piece (so for every
  empty cell, when the board holds one already); and \<open>assess_line\<close> of every
  horizontal, vertical and diagonal four-cell window.
\<close>

theorem evaluate_board_state_parts:
  assumes "shape g board" and "0 < column_count g"
  shows "evaluate_board_state g board piece =
     Inr (board, int (center_count g board piece) * 3
        + 1000000 * int (length (immediate_win_cells g board piece))
        + sum_list (map (\<lambda>w. assess_line (cells_at board w) piece) (windows g)))"
  using assms by (rule evaluate_decomp)

theorem evaluate_board_state_parts_witness:
  "shape g44 b_open_right \<and> 0 < column_count g44
   \<and> evaluate_board_state g44 b_open_right PIECE_HUMAN =
     Inr (b_open_right, int (center_count g44 b_open_right PIECE_HUMAN) * 3
        + 1000000 * int (length (immediate_win_cells g44 b_open_right PIECE_HUMAN))
        + sum_list (map (\<lambda>w. assess_line (cells_at b_open_right w) PIECE_HUMAN) (windows g44)))"
proof -
  have s: "shape g44 b_open_right" and c: "0 < column_count g44" by code_simp+
  from evaluate_board_state_parts [OF s c] s c show ?thesis by simp
qed

section \<open>Move generation on a board of the right shape\<close>

lemma is_column_open_shape:
  assumes s: "shape g board" and c: "c < column_count g"
  shows "is_column_open g board (int c) = Inr (board ! (row_count g - 1) ! c = PIECE_EMPTY)"
proof -
  from s have r: "row_count g - 1 < row_count g" by (simp add: shape_def)
  from s have e: "int (row_count g) - 1 = int (row_count g - 1)"
    by (simp add: shape_def of_nat_diff)
  show ?thesis
    unfolding is_column_open_def e at_shape [OF s r c] ebind_Inr ..
qed

lemma first_empty_find:
  assumes s: "shape g board" and c: "c < column_count g"
  shows "set rs \<subseteq> {0..<row_count g} \<Longrightarrow>
    first_empty board c rs = Inr (find (\<lambda>r. board ! r ! c = PIECE_EMPTY) rs)"
  by (induction rs) (simp_all add: at_shape [OF s _ c])

lemma find_open_row_shape:
  assumes s: "shape g board" and c: "c < column_count g"
  shows "find_open_row g board c = Inr (lowest_empty g board c)"
  unfolding find_open_row_def lowest_empty_def
  by (rule first_empty_find [OF s c]) simp

lemma lowest_empty_open:
  assumes s: "shape g board" and o: "c \<in> set (open_columns g board)"
  shows "\<exists>r. lowest_empty g board c = Some r \<and> r < row_count g \<and> board ! r ! c = PIECE_EMPTY"
proof -
  from s have r: "row_count g - 1 \<in> set [0..<row_count g]" by (simp add: shape_def)
  from o have "board ! (row_count g - 1) ! c = PIECE_EMPTY" by (simp add: open_columns_def)
  with r have "find (\<lambda>r. board ! r ! c = PIECE_EMPTY) [0..<row_count g] \<noteq> None"
    unfolding find_None_iff by blast
  then obtain r where f: "find (\<lambda>r. board ! r ! c = PIECE_EMPTY) [0..<row_count g] = Some r"
    by auto
  then have "r \<in> set [0..<row_count g]" "board ! r ! c = PIECE_EMPTY"
    by (auto simp: find_Some_iff)
  with f show ?thesis by (simp add: lowest_empty_def)
qed

lemma open_columns_less: "c \<in> set (open_columns g board) \<Longrightarrow> c < column_count g"
  by (simp add: open_columns_def)

lemma place_disc_open:
  assumes s: "shape g board" and o: "c \<in> set (open_columns g board)"
  shows "place_disc board (lowest_empty g board c) c piece = Inr (dropped g board c piece)"
    and "shape g (dropped g board c piece)"
proof -
  from lowest_empty_open [OF s o] obtain r where
    r: "lowest_empty g board c = Some r" "r < row_count g" by blast
  from o have c: "c < column_count g" by (rule open_columns_less)
  show "place_disc board (lowest_empty g board c) c piece = Inr (dropped g board c piece)"
    by (simp add: r dropped_def set_cell_shape [OF s r(2) c])
  show "shape g (dropped g board c piece)"
    by (simp add: r dropped_def shape_update [OF s r(2)])
qed

lemma dropped_empty:
  assumes s: "shape g board" and o: "c \<in> set (open_columns g board)"
  shows "dropped g board c PIECE_EMPTY = board"
proof -
  from lowest_empty_open [OF s o] obtain r where
    r: "lowest_empty g board c = Some r" "r < row_count g" "board ! r ! c = PIECE_EMPTY" by blast
  from r(3) have "(board ! r)[c := PIECE_EMPTY] = board ! r" by (metis list_update_id)
  then show ?thesis by (simp add: dropped_def r)
qed

lemma playable_step_shape:
  assumes s: "shape g board" and c: "c < column_count g"
  shows "playable_step g board (ps, ws) c =
     Inr (if c \<in> set (open_columns g board)
          then (ps @ [c], if c \<in> set (winning_columns g board) then ws @ [c] else ws)
          else (ps, ws))"
proof (cases "c \<in> set (open_columns g board)")
  case False
  with c have "board ! (row_count g - 1) ! c \<noteq> PIECE_EMPTY" by (simp add: open_columns_def)
  with False show ?thesis
    by (simp add: playable_step_def is_column_open_shape [OF s c])
next
  case True
  then have o: "board ! (row_count g - 1) ! c = PIECE_EMPTY" by (simp add: open_columns_def)
  let ?t = "dropped g board c PLAYER_AI"
  note p = place_disc_open [OF s True, of PLAYER_AI]
  from is_winning_pattern_Inr [OF p(2)] obtain w where
    w: "is_winning_pattern g ?t PLAYER_AI = Inr w" ..
  from lowest_empty_open [OF s True] obtain r where
    r: "lowest_empty g board c = Some r" "r < row_count g" by blast
  have undo: "\<exists>b. place_disc ?t (lowest_empty g board c) c PIECE_EMPTY = Inr b"
    by (simp add: r set_cell_shape [OF p(2) r(2) c])
  then obtain b where b: "place_disc ?t (lowest_empty g board c) c PIECE_EMPTY = Inr b" ..
  have wc: "c \<in> set (winning_columns g board) \<longleftrightarrow> w"
    using True w by (simp add: winning_columns_def)
  from o have oc: "is_column_open g board (int c) = Inr True"
    by (simp add: is_column_open_shape [OF s c])
  show ?thesis
    by (simp add: playable_step_def oc find_open_row_shape [OF s c] p(1) w b True wc)
qed

lemma playable_loop:
  assumes s: "shape g board"
  shows "set cs \<subseteq> {0..<column_count g} \<Longrightarrow>
    fold_err (playable_step g board) cs (ps, ws) =
      Inr (ps @ filter (\<lambda>c. c \<in> set (open_columns g board)) cs,
           ws @ filter (\<lambda>c. c \<in> set (winning_columns g board)) cs)"
proof (induction cs arbitrary: ps ws)
  case Nil
  show ?case by simp
next
  case (Cons c cs)
  then have c: "c < column_count g" and cs: "set cs \<subseteq> {0..<column_count g}" by auto
  have sub: "c \<in> set (winning_columns g board) \<Longrightarrow> c \<in> set (open_columns g board)"
    by (simp add: winning_columns_def)
  show ?case
    using sub by (simp add: playable_step_shape [OF s c] Cons.IH [OF cs])
qed

lemma filter_mem_filter:
  "filter (\<lambda>x. x \<in> set (filter P xs)) xs = filter P xs"
  by (rule filter_cong) simp_all

lemma find_playable_columns_shape:
  assumes s: "shape g board"
  shows "find_playable_columns g board =
     Inr (if winning_columns g board \<noteq> [] then winning_columns g board
          else open_columns g board)"
proof -
  have o: "filter (\<lambda>c. c \<in> set (open_columns g board)) [0..<column_count g] = open_columns g board"
    unfolding open_columns_def by (rule filter_mem_filter)
  have "\<exists>Q. winning_columns g board = filter Q [0..<column_count g]"
    unfolding winning_columns_def open_columns_def filter_filter by (rule exI) (rule refl)
  then obtain Q where wq: "winning_columns g board = filter Q [0..<column_count g]" ..
  have w: "filter (\<lambda>c. c \<in> set (winning_columns g board)) [0..<column_count g]
      = winning_columns g board"
    unfolding wq by (rule filter_mem_filter)
  have "fold_err (playable_step g board) [0..<column_count g] ([], []) =
      Inr (open_columns g board, winning_columns g board)"
    using playable_loop [OF s, of "[0..<column_count g]" "[]" "[]"] by (simp add: o w)
  then show ?thesis by (simp add: find_playable_columns_def)
qed

section \<open>Unfolding the search\<close>

declare minimax.simps [simp del] full_minimax.simps [simp del]

lemma playable_subset: "set (playable g board) \<subseteq> set (open_columns g board)"
  by (auto simp: playable_def winning_columns_def)

lemma playable_Nil: "playable g board = [] \<longleftrightarrow> open_columns g board = []"
  by (auto simp: playable_def winning_columns_def)

lemma human_never_wins: "is_winning_pattern g board PLAYER_HUMAN = Inr False"
  by (simp add: is_winning_pattern_def PLAYER_HUMAN_def PIECE_EMPTY_def)

lemma is_game_over_shape:
  assumes s: "shape g board"
  shows "is_game_over g board = Inr (game_over g board)"
proof -
  from is_winning_pattern_Inr [OF s] obtain w where
    w: "is_winning_pattern g board PLAYER_AI = Inr w" ..
  show ?thesis
    by (simp add: is_game_over_def w human_never_wins find_playable_columns_shape [OF s]
        game_over_def playable_Nil [unfolded playable_def])
qed

lemma find_playable_columns_playable:
  "shape g board \<Longrightarrow> find_playable_columns g board = Inr (playable g board)"
  by (simp add: find_playable_columns_shape playable_def)

lemma evaluate_static:
  assumes s: "shape g board" and c: "0 < column_count g"
  shows "evaluate_board_state g board PLAYER_AI = Inr (board, static_score g board)"
  by (simp add: static_score_def evaluate_decomp [OF s c])

lemma open_columns_positive: "open_columns g board \<noteq> [] \<Longrightarrow> 0 < column_count g"
  by (cases "column_count g = 0") (simp_all add: open_columns_def)

lemma minimax_hit:
  "transposition_table st (board, depth, m) = Some r \<Longrightarrow>
   minimax g rnd st board depth alpha beta m = Inr (st, board, r)"
  by (simp add: minimax.simps)

lemma minimax_direct:
  assumes s: "shape g board" and miss: "transposition_table st (board, depth, m) = None"
    and d: "direct g board depth = Some r"
  shows "minimax g rnd st board depth alpha beta m = Inr (st, board, r)"
proof -
  from is_winning_pattern_Inr [OF s] obtain w where
    w: "is_winning_pattern g board PLAYER_AI = Inr w" ..
  show ?thesis
  proof (cases "game_over g board")
    case True
    with d show ?thesis
      by (subst minimax.simps)
        (auto simp: miss find_playable_columns_playable [OF s] is_game_over_shape [OF s] w
          human_never_wins direct_def)
  next
    case False
    then have "0 < column_count g" by (auto simp: game_over_def intro: open_columns_positive)
    note e = evaluate_static [OF s this]
    from False d have "depth = 0" "r = (None, Fin (static_score g board))"
      by (auto simp: direct_def split: if_splits)
    with False miss show ?thesis
      by (subst minimax.simps)
        (simp add: find_playable_columns_playable [OF s] is_game_over_shape [OF s] e)
  qed
qed

lemma full_direct:
  assumes s: "shape g board" and d: "direct g board depth = Some r"
  shows "full_minimax g board depth m = Inr r"
proof -
  from is_winning_pattern_Inr [OF s] obtain w where
    w: "is_winning_pattern g board PLAYER_AI = Inr w" ..
  show ?thesis
  proof (cases "game_over g board")
    case True
    with d show ?thesis
      by (subst full_minimax.simps)
        (auto simp: find_playable_columns_playable [OF s] is_game_over_shape [OF s] w
          human_never_wins direct_def)
  next
    case False
    then have "0 < column_count g" by (auto simp: game_over_def intro: open_columns_positive)
    note e = evaluate_static [OF s this]
    from False d have "depth = 0" "r = (None, Fin (static_score g board))"
      by (auto simp: direct_def split: if_splits)
    with False show ?thesis
      by (subst full_minimax.simps)
        (simp add: find_playable_columns_playable [OF s] is_game_over_shape [OF s] e)
  qed
qed

lemma direct_None: "direct g board depth = None \<longleftrightarrow> \<not> game_over g board \<and> 0 < depth"
  by (simp add: direct_def)

lemma minimax_expand:
  assumes s: "shape g board" and miss: "transposition_table st (board, depth, m) = None"
    and d: "direct g board depth = None"
  shows "minimax g rnd st board depth alpha beta m =
     ebind (random_choice rnd st (playable g board)) (\<lambda>(st1, column).
     ebind (if m then
              max_loop g (\<lambda>st' b a be. minimax g rnd st' b (depth - 1) a be False)
                board beta (playable g board) (st1, alpha, NegInf, column)
            else
              min_loop g (\<lambda>st' b a be. minimax g rnd st' b (depth - 1) a be True)
                board alpha (playable g board) (st1, beta, PosInf, column))
       (\<lambda>(st2, column, val).
         Inr (st2\<lparr>transposition_table :=
                    (transposition_table st2)((board, depth, m) \<mapsto> (Some column, val))\<rparr>,
              board, Some column, val)))"
  using d unfolding direct_None
  by (subst minimax.simps)
    (simp add: miss find_playable_columns_playable [OF s] is_game_over_shape [OF s])

lemma map_err_cong:
  "(\<And>x. x \<in> set xs \<Longrightarrow> f x = h x) \<Longrightarrow> map_err f xs = map_err h xs"
proof (induction xs)
  case Nil
  show ?case by simp
next
  case (Cons a xs)
  have 1: "f a = h a" by (rule Cons.prems) simp
  have 2: "map_err f xs = map_err h xs" by (rule Cons.IH, rule Cons.prems) simp
  show ?case unfolding map_err.simps 1 2 ..
qed

lemma full_expand:
  assumes s: "shape g board" and d: "direct g board depth = None"
  shows "full_minimax g board depth m =
     ebind (map_err (\<lambda>col.
              ebind (full_minimax g (dropped g board col (if m then PLAYER_AI else PLAYER_HUMAN))
                       (depth - 1) (\<not> m)) (\<lambda>(_, v). Inr (col, v)))
              (playable g board)) (\<lambda>cvs.
       let v = (if m then maximum (map snd cvs) else minimum (map snd cvs))
       in Inr (first_with v cvs, v))"
proof -
  have step: "ebind (find_open_row g board col) (\<lambda>row.
              ebind (place_disc board row col (if m then PLAYER_AI else PLAYER_HUMAN)) (\<lambda>child.
              ebind (full_minimax g child (depth - 1) (\<not> m)) (\<lambda>(_, v). Inr (col, v))))
      = ebind (full_minimax g (dropped g board col (if m then PLAYER_AI else PLAYER_HUMAN))
                       (depth - 1) (\<not> m)) (\<lambda>(_, v). Inr (col, v))"
    if "col \<in> set (playable g board)" for col
  proof -
    from that playable_subset have o: "col \<in> set (open_columns g board)" by blast
    then have c: "col < column_count g" by (rule open_columns_less)
    show ?thesis
      by (simp add: find_open_row_shape [OF s c] place_disc_open(1) [OF s o])
  qed
  from d have cnd: "(depth = 0 \<or> game_over g board) = False"
    by (simp add: direct_None)
  show ?thesis
    by (subst full_minimax.simps)
      (simp only: find_playable_columns_playable [OF s] is_game_over_shape [OF s]
        ebind_Inr cnd if_False map_err_cong [OF step])
qed

declare max_loop.simps(2) [simp del] min_loop.simps(2) [simp del]

lemma max_loop_step:
  assumes s: "shape g board" and o: "col \<in> set (open_columns g board)"
  shows "max_loop g child board beta (col # cols) (st, alpha, val, column) =
     ebind (child st (dropped g board col PLAYER_AI) alpha beta) (\<lambda>(st', _, _, new_score).
       let val' = (if val < new_score then new_score else val);
           column' = (if val < new_score then col else column);
           alpha' = max alpha val'
       in if beta \<le> alpha' then Inr (st', column', val')
          else max_loop g child board beta cols (st', alpha', val', column'))"
  by (simp only: max_loop.simps find_open_row_shape [OF s open_columns_less [OF o]]
      ebind_Inr place_disc_open(1) [OF s o])

lemma min_loop_step:
  assumes s: "shape g board" and o: "col \<in> set (open_columns g board)"
  shows "min_loop g child board alpha (col # cols) (st, beta, val, column) =
     ebind (child st board alpha beta) (\<lambda>(st', _, _, new_score).
       let val' = (if new_score < val then new_score else val);
           column' = (if new_score < val then col else column);
           beta' = min beta val'
       in if beta' \<le> alpha then Inr (st', column', val')
          else min_loop g child board alpha cols (st', beta', val', column'))"
proof -
  have "dropped g board col PLAYER_HUMAN = board"
    using dropped_empty [OF s o] by (simp add: PLAYER_HUMAN_def PIECE_EMPTY_def)
  with place_disc_open(1) [OF s o, of PLAYER_HUMAN]
  have p: "place_disc board (lowest_empty g board col) col PLAYER_HUMAN = Inr board" by simp
  show ?thesis
    by (simp only: min_loop.simps find_open_row_shape [OF s open_columns_less [OF o]]
        ebind_Inr p)
qed

lemma max_loop_inv:
  assumes s: "shape g board"
    and child: "\<And>st b' a be. shape g b' \<Longrightarrow> I st \<Longrightarrow>
                 \<exists>st' c v. child st b' a be = Inr (st', b', c, v) \<and> I st'"
  shows "set cols \<subseteq> set (open_columns g board) \<Longrightarrow> I st \<Longrightarrow>
     \<exists>st' column' val'. max_loop g child board beta cols (st, alpha, val, column)
                           = Inr (st', column', val')
        \<and> I st' \<and> (column' = column \<or> column' \<in> set cols)"
proof (induction cols arbitrary: st alpha val column)
  case Nil
  then show ?case by simp
next
  case (Cons col cols)
  from Cons.prems have o: "col \<in> set (open_columns g board)"
    and sub: "set cols \<subseteq> set (open_columns g board)" by auto
  from child [OF place_disc_open(2) [OF s o] Cons.prems(2)] obtain st' c v where
    ch: "child st (dropped g board col PLAYER_AI) alpha beta
           = Inr (st', dropped g board col PLAYER_AI, c, v)" and i: "I st'" by blast
  let ?val = "if val < v then v else val"
  let ?column = "if val < v then col else column"
  show ?case
  proof (cases "beta \<le> max alpha ?val")
    case True
    then have "max_loop g child board beta (col # cols) (st, alpha, val, column)
            = Inr (st', ?column, ?val)"
      by (simp add: max_loop_step [OF s o] ch Let_def)
    with i show ?thesis by (auto split: if_splits)
  next
    case False
    from Cons.IH [OF sub i, of "max alpha ?val" ?val ?column] obtain st'' column' val' where
      r: "max_loop g child board beta cols (st', max alpha ?val, ?val, ?column)
            = Inr (st'', column', val')" "I st''"
        "column' = ?column \<or> column' \<in> set cols" by blast
    have "max_loop g child board beta (col # cols) (st, alpha, val, column)
            = Inr (st'', column', val')"
      using False r(1) by (simp add: max_loop_step [OF s o] ch Let_def)
    with r(2,3) show ?thesis by (auto split: if_splits)
  qed
qed

lemma min_loop_inv:
  assumes s: "shape g board"
    and child: "\<And>st b' a be. shape g b' \<Longrightarrow> I st \<Longrightarrow>
                 \<exists>st' c v. child st b' a be = Inr (st', b', c, v) \<and> I st'"
  shows "set cols \<subseteq> set (open_columns g board) \<Longrightarrow> I st \<Longrightarrow>
     \<exists>st' column' val'. min_loop g child board alpha cols (st, beta, val, column)
                           = Inr (st', column', val')
        \<and> I st' \<and> (column' = column \<or> column' \<in> set cols)"
proof (induction cols arbitrary: st beta val column)
  case Nil
  then show ?case by simp
next
  case (Cons col cols)
  from Cons.prems have o: "col \<in> set (open_columns g board)"
    and sub: "set cols \<subseteq> set (open_columns g board)" by auto
  from child [OF s Cons.prems(2)] obtain st' c v where
    ch: "child st board alpha beta = Inr (st', board, c, v)" and i: "I st'" by blast
  let ?val = "if v < val then v else val"
  let ?column = "if v < val then col else column"
  show ?case
  proof (cases "min beta ?val \<le> alpha")
    case True
    then have "min_loop g child board alpha (col # cols) (st, beta, val, column)
            = Inr (st', ?column, ?val)"
      by (simp add: min_loop_step [OF s o] ch Let_def)
    with i show ?thesis by (auto split: if_splits)
  next
    case False
    from Cons.IH [OF sub i, of "min beta ?val" ?val ?column] obtain st'' column' val' where
      r: "min_loop g child board alpha cols (st', min beta ?val, ?val, ?column)
            = Inr (st'', column', val')" "I st''"
        "column' = ?column \<or> column' \<in> set cols" by blast
    have "min_loop g child board alpha (col # cols) (st, beta, val, column)
            = Inr (st'', column', val')"
      using False r(1) by (simp add: min_loop_step [OF s o] ch Let_def)
    with r(2,3) show ?thesis by (auto split: if_splits)
  qed
qed

lemma random_choice_playable:
  assumes "xs \<noteq> []"
  shows "\<exists>column. random_choice rnd st xs = Inr (st\<lparr>draws := draws st + 1\<rparr>, column)
           \<and> column \<in> set xs"
  using assms by (auto simp: random_choice_def)

lemma cols_inv_store:
  assumes "cols_inv g T" and "direct g board depth = None" and "col \<in> set (playable g board)"
  shows "cols_inv g (T((board, depth, m) \<mapsto> (Some col, v)))"
  using assms unfolding cols_inv_def by (auto split: if_splits)

lemma minimax_inv_gen:
  "shape g board \<Longrightarrow> (K \<longrightarrow> cols_inv g (transposition_table st)) \<Longrightarrow>
   \<exists>st' c v. minimax g rnd st board depth alpha beta m = Inr (st', board, c, v)
     \<and> (K \<longrightarrow> cols_inv g (transposition_table st')
           \<and> (case direct g board depth of
                 Some r \<Rightarrow> (c, v) = r
               | None \<Rightarrow> \<exists>col\<in>set (playable g board). c = Some col))"
proof (induction depth arbitrary: st board alpha beta m rule: less_induct)
  case (less depth)
  note s = less.prems(1) and inv = less.prems(2)
  show ?case
  proof (cases "transposition_table st (board, depth, m)")
    case (Some r)
    obtain c v where r: "r = (c, v)" by (cases r)
    have run: "minimax g rnd st board depth alpha beta m = Inr (st, board, c, v)"
      using minimax_hit [OF Some] by (simp add: r)
    have "direct g board depth = None \<and> (\<exists>col\<in>set (playable g board). c = Some col)" if K
      using inv that Some unfolding cols_inv_def r by blast
    with run inv show ?thesis by auto
  next
    case None
    show ?thesis
    proof (cases "direct g board depth")
      case (Some r)
      obtain c v where r: "r = (c, v)" by (cases r)
      have "minimax g rnd st board depth alpha beta m = Inr (st, board, c, v)"
        using minimax_direct [OF s None Some] by (simp add: r)
      with inv Some r show ?thesis by auto
    next
      case dn: None
      then have ng: "\<not> game_over g board" and dp: "0 < depth" by (simp_all add: direct_None)
      from ng have "playable g board \<noteq> []" by (simp add: playable_Nil game_over_def)
      from random_choice_playable [OF this, of rnd st] obtain column where
        rc: "random_choice rnd st (playable g board) = Inr (st\<lparr>draws := draws st + 1\<rparr>, column)"
        and col: "column \<in> set (playable g board)" by blast
      let ?st1 = "st\<lparr>draws := draws st + 1\<rparr>"
      let ?I = "\<lambda>st. K \<longrightarrow> cols_inv g (transposition_table st)"
      have i1: "?I ?st1" using inv by simp
      have child: "\<exists>st' c v. minimax g rnd st0 b' (depth - 1) a be m' = Inr (st', b', c, v) \<and> ?I st'"
        if "shape g b'" "?I st0" for st0 b' a be m'
      proof -
        from dp have "depth - 1 < depth" by simp
        from less.IH [OF this that] show ?thesis by blast
      qed
      have loop: "\<exists>st2 column' val'.
          (if m then
              max_loop g (\<lambda>st' b a be. minimax g rnd st' b (depth - 1) a be False)
                board beta (playable g board) (?st1, alpha, NegInf, column)
           else
              min_loop g (\<lambda>st' b a be. minimax g rnd st' b (depth - 1) a be True)
                board alpha (playable g board) (?st1, beta, PosInf, column))
            = Inr (st2, column', val')
          \<and> ?I st2 \<and> column' \<in> set (playable g board)"
      proof (cases m)
        case True
        from max_loop_inv [where I = ?I and child = "\<lambda>st' b a be. minimax g rnd st' b (depth - 1) a be False",
            OF s child playable_subset i1, of beta alpha NegInf column]
        obtain st2 column' val' where
          "max_loop g (\<lambda>st' b a be. minimax g rnd st' b (depth - 1) a be False)
                board beta (playable g board) (?st1, alpha, NegInf, column) = Inr (st2, column', val')"
          "?I st2" "column' = column \<or> column' \<in> set (playable g board)" by blast
        with True col show ?thesis by auto
      next
        case False
        from min_loop_inv [where I = ?I and child = "\<lambda>st' b a be. minimax g rnd st' b (depth - 1) a be True",
            OF s child playable_subset i1, of alpha beta PosInf column]
        obtain st2 column' val' where
          "min_loop g (\<lambda>st' b a be. minimax g rnd st' b (depth - 1) a be True)
                board alpha (playable g board) (?st1, beta, PosInf, column) = Inr (st2, column', val')"
          "?I st2" "column' = column \<or> column' \<in> set (playable g board)" by blast
        with False col show ?thesis by auto
      qed
      then obtain st2 column' val' where
        l: "(if m then
              max_loop g (\<lambda>st' b a be. minimax g rnd st' b (depth - 1) a be False)
                board beta (playable g board) (?st1, alpha, NegInf, column)
           else
              min_loop g (\<lambda>st' b a be. minimax g rnd st' b (depth - 1) a be True)
                board alpha (playable g board) (?st1, beta, PosInf, column))
            = Inr (st2, column', val')"
        and i2: "?I st2" and c2: "column' \<in> set (playable g board)" by blast
      let ?st3 = "st2\<lparr>transposition_table :=
                    (transposition_table st2)((board, depth, m) \<mapsto> (Some column', val'))\<rparr>"
      have run: "minimax g rnd st board depth alpha beta m = Inr (?st3, board, Some column', val')"
        unfolding minimax_expand [OF s None dn] rc ebind_Inr prod.case l ..
      have "cols_inv g (transposition_table ?st3)" if K
        using cols_inv_store [OF _ dn c2] i2 that by simp
      with run dn c2 show ?thesis by auto
    qed
  qed
qed

lemma playable_open:
  assumes s: "shape g board" and c: "col \<in> set (playable g board)"
  shows "col < column_count g" and "is_column_open g board (int col) = Inr True"
proof -
  from c playable_subset have o: "col \<in> set (open_columns g board)" by blast
  then show l: "col < column_count g" by (rule open_columns_less)
  from o have "board ! (row_count g - 1) ! col = PIECE_EMPTY" by (simp add: open_columns_def)
  then show "is_column_open g board (int col) = Inr True"
    by (simp add: is_column_open_shape [OF s l])
qed

lemma direct_Some_None: "direct g board depth = Some r \<Longrightarrow> fst r = None"
  by (auto simp: direct_def split: if_splits)

lemma direct_Some_iff:
  "(\<exists>r. direct g board depth = Some r) \<longleftrightarrow> depth = 0 \<or> game_over g board"
  by (auto simp: direct_def)

section \<open>The board after a search\<close>

text \<open>
  C8. On a board of the game's shape with at least one column, \<open>evaluate_board_state\<close>
  returns, and leaves the board it was given cell for cell as it was (every cell it
  fills in its immediate-win check it empties again), so a second call on that board
  returns the same score. \<open>minimax\<close> returns as well, for every depth, window, side and
  table, and leaves its board argument as it was: its moves are made on copies, and the
  only function it passes the board itself to is the evaluation.
\<close>

theorem search_and_evaluation_leave_board:
  assumes "shape g board" and "0 < column_count g"
  shows "(\<exists>board' score. evaluate_board_state g board piece = Inr (board', score)
            \<and> board' = board
            \<and> evaluate_board_state g board' piece = Inr (board', score))
       \<and> (\<exists>st' board' c v. minimax g rnd st board depth alpha beta m = Inr (st', board', c, v)
            \<and> board' = board)"
proof -
  from minimax_inv_gen [OF assms(1), of False st rnd depth alpha beta m]
  have "\<exists>st' c v. minimax g rnd st board depth alpha beta m = Inr (st', board, c, v)"
    by simp
  with evaluate_decomp [OF assms, of piece] show ?thesis by auto
qed

theorem search_and_evaluation_leave_board_witness:
  "shape g44 b_open_right \<and> 0 < column_count g44
   \<and> evaluate_board_state g44 b_open_right PIECE_HUMAN = Inr (b_open_right, 1000053)
   \<and> (\<exists>st' board' c v.
         minimax g44 (\<lambda>_. 0) st0 b_open_right 2 NegInf PosInf True = Inr (st', board', c, v)
         \<and> board' = b_open_right)"
proof -
  have s: "shape g44 b_open_right" and c: "0 < column_count g44" by code_simp+
  have e: "evaluate_board_state g44 b_open_right PIECE_HUMAN = Inr (b_open_right, 1000053)"
    by code_simp
  from search_and_evaluation_leave_board [OF s c, of PIECE_HUMAN "\<lambda>_. 0" st0 2 NegInf PosInf True]
    s c e show ?thesis by simp
qed

section \<open>The column a search returns\<close>

text \<open>
  C10. On a board of the game's shape and with a table that has the invariant
  \<open>cols_inv\<close> (the empty table has it, and the call keeps it), \<open>minimax\<close> returns, for every
  depth, window and side. At depth 0 or on a terminal board the column is \<open>None\<close>; at
  every other node it is a member of the list \<open>find_playable_columns\<close> returns for the
  board, an in-range column whose top cell is empty.
\<close>

theorem minimax_column_playable:
  assumes "shape g board" and "cols_inv g (transposition_table st)"
  shows "\<exists>st' c v. minimax g rnd st board depth alpha beta m = Inr (st', board, c, v)
     \<and> cols_inv g (transposition_table st')
     \<and> (if depth = 0 \<or> is_game_over g board = Inr True then c = None
        else \<exists>col cs. c = Some col \<and> find_playable_columns g board = Inr cs
               \<and> col \<in> set cs \<and> col < column_count g
               \<and> is_column_open g board (int col) = Inr True)"
proof -
  from minimax_inv_gen [OF assms(1), of True st rnd depth alpha beta m] assms(2)
  obtain st' c v where
    run: "minimax g rnd st board depth alpha beta m = Inr (st', board, c, v)"
    and inv: "cols_inv g (transposition_table st')"
    and res: "case direct g board depth of
                 Some r \<Rightarrow> (c, v) = r
               | None \<Rightarrow> \<exists>col\<in>set (playable g board). c = Some col" by auto
  note go = is_game_over_shape [OF assms(1)]
  have "if depth = 0 \<or> is_game_over g board = Inr True then c = None
        else \<exists>col cs. c = Some col \<and> find_playable_columns g board = Inr cs
               \<and> col \<in> set cs \<and> col < column_count g
               \<and> is_column_open g board (int col) = Inr True"
  proof (cases "direct g board depth")
    case (Some r)
    with res have "c = None" using direct_Some_None [OF Some] by auto
    moreover from Some have "depth = 0 \<or> game_over g board"
      using direct_Some_iff [of g board depth] by blast
    ultimately show ?thesis by (simp add: go)
  next
    case None
    with res obtain col where col: "col \<in> set (playable g board)" "c = Some col" by auto
    from None have "\<not> (depth = 0 \<or> game_over g board)" by (simp add: direct_None)
    with col playable_open [OF assms(1) col(1)] find_playable_columns_playable [OF assms(1)]
    show ?thesis by (auto simp: go)
  qed
  with run inv show ?thesis by blast
qed

lemma cols_inv_empty: "cols_inv g Map.empty"
  by (simp add: cols_inv_def)

theorem minimax_column_playable_witness:
  "shape g44 b_open_right \<and> cols_inv g44 (transposition_table st0)
   \<and> \<not> ((1::nat) = 0 \<or> is_game_over g44 b_open_right = Inr True)
   \<and> (\<exists>st' c v. minimax g44 (\<lambda>_. 0) st0 b_open_right 1 NegInf PosInf True
                     = Inr (st', b_open_right, c, v)
     \<and> cols_inv g44 (transposition_table st')
     \<and> (\<exists>col cs. c = Some col \<and> find_playable_columns g44 b_open_right = Inr cs
               \<and> col \<in> set cs \<and> col < column_count g44
               \<and> is_column_open g44 b_open_right (int col) = Inr True))"
proof -
  have s: "shape g44 b_open_right" by code_simp
  have i: "cols_inv g44 (transposition_table st0)" by (simp add: st0_def cols_inv_empty)
  have n: "\<not> ((1::nat) = 0 \<or> is_game_over g44 b_open_right = Inr True)" by code_simp
  from minimax_column_playable [OF s i, of "\<lambda>_. 0" 1 NegInf PosInf True] n s i
  show ?thesis by simp
qed

section \<open>The classification of a node\<close>

text \<open>
  C1. The claim: a node where the AI's piece has four in a row is a terminal win, and
  else a node where the human's piece has four in a row is a terminal loss, scored
  \<open>NEGATIVE\<close> plus the ply penalty. \<open>minimax\<close> tests \<open>is_winning_pattern\<close> with the player
  identifiers \<open>PLAYER_AI = 1\<close> and \<open>PLAYER_HUMAN = 0\<close> where the pieces on the board are
  \<open>PIECE_HUMAN = 1\<close> and \<open>PIECE_AI = 2\<close>. So it takes a four of the human's pieces for a win
  of the maximizing side, it never finds a loss, and it does not see a four of the AI's
  pieces. Here the search moves in column 3 of a board where the human has three in a
  row; the child holds four human pieces and gets the win score, which the root returns.
  The board with four AI pieces is evaluated as an ordinary leaf.
\<close>

theorem minimax_takes_human_four_for_win:
  "dropped g44 b_open_right 3 PLAYER_AI = b_human_four
   \<and> is_winning_pattern g44 b_human_four PIECE_HUMAN = Inr True
   \<and> is_winning_pattern g44 b_human_four PIECE_AI = Inr False
   \<and> returned (minimax g44 (\<lambda>_. 0) st0 b_human_four 0 NegInf PosInf False)
       = Inr (None, Fin (win_score g44 0))
   \<and> win_score g44 0 = 9999984 \<and> loss_score g44 0 = - 9999984
   \<and> returned (minimax g44 (\<lambda>_. 0) st0 b_open_right 1 NegInf PosInf True)
       = Inr (Some 3, Fin (win_score g44 0))
   \<and> is_winning_pattern g44 b_ai_four PIECE_AI = Inr True
   \<and> is_game_over g44 b_ai_four = Inr False
   \<and> returned (minimax g44 (\<lambda>_. 0) st0 b_ai_four 0 NegInf PosInf True)
       = Inr (None, Fin 1000053)"
  by code_simp

section \<open>The children of an expanded node\<close>





section \<open>The unpruned search is total\<close>

lemma maximum_Cons [simp]: "maximum (x # xs) = max x (maximum xs)"
  by (simp add: maximum_def)

lemma minimum_Cons [simp]: "minimum (x # xs) = min x (minimum xs)"
  by (simp add: minimum_def)

lemma maximum_Nil [simp]: "maximum [] = NegInf"
  by (simp add: maximum_def)

lemma minimum_Nil [simp]: "minimum [] = PosInf"
  by (simp add: minimum_def)

lemma NegInf_least [simp]: "NegInf \<le> x"
  by simp

lemma PosInf_greatest [simp]: "x \<le> PosInf"
  by (cases x) simp_all

lemma max_NegInf [simp]: "max x NegInf = x" "max NegInf x = x"
  by (simp_all add: max_def) (cases x; simp)

lemma min_PosInf [simp]: "min x PosInf = x" "min PosInf x = x"
  by (simp_all add: min_def) (cases x; simp)+

lemma max_Fin: "max (Fin a) (Fin b) = Fin (max a b)"
  by (simp add: max_def)

lemma min_Fin: "min (Fin a) (Fin b) = Fin (min a b)"
  by (simp add: min_def)

lemma maximum_Fin:
  "xs \<noteq> [] \<Longrightarrow> (\<And>x. x \<in> set xs \<Longrightarrow> \<exists>i. x = Fin i) \<Longrightarrow> \<exists>i. maximum xs = Fin i"
proof (induction xs)
  case Nil
  then show ?case by simp
next
  case (Cons x xs)
  from Cons.prems(2) [of x] obtain a where a: "x = Fin a" by auto
  show ?case
  proof (cases "xs = []")
    case True
    with a show ?thesis by simp
  next
    case False
    from Cons.IH [OF False] Cons.prems(2) obtain b where "maximum xs = Fin b" by auto
    with a show ?thesis by (simp add: max_Fin)
  qed
qed

lemma minimum_Fin:
  "xs \<noteq> [] \<Longrightarrow> (\<And>x. x \<in> set xs \<Longrightarrow> \<exists>i. x = Fin i) \<Longrightarrow> \<exists>i. minimum xs = Fin i"
proof (induction xs)
  case Nil
  then show ?case by simp
next
  case (Cons x xs)
  from Cons.prems(2) [of x] obtain a where a: "x = Fin a" by auto
  show ?case
  proof (cases "xs = []")
    case True
    with a show ?thesis by simp
  next
    case False
    from Cons.IH [OF False] Cons.prems(2) obtain b where "minimum xs = Fin b" by auto
    with a show ?thesis by (simp add: min_Fin)
  qed
qed

lemma direct_Fin: "direct g board depth = Some r \<Longrightarrow> \<exists>x. r = (None, Fin x)"
  by (auto simp: direct_def split: if_splits)

lemma playable_nonempty: "direct g board depth = None \<Longrightarrow> playable g board \<noteq> []"
  by (simp add: direct_None playable_Nil game_over_def)

lemma shape_dropped:
  "shape g board \<Longrightarrow> col \<in> set (playable g board) \<Longrightarrow> shape g (dropped g board col piece)"
  using place_disc_open(2) playable_subset by blast

lemma full_total:
  "shape g board \<Longrightarrow> \<exists>c x. full_minimax g board depth m = Inr (c, Fin x)"
proof (induction depth arbitrary: board m rule: less_induct)
  case (less depth)
  note s = less.prems
  show ?case
  proof (cases "direct g board depth")
    case (Some r)
    from direct_Fin [OF Some] full_direct [OF s Some] show ?thesis by auto
  next
    case None
    then have dp: "depth - 1 < depth" by (simp add: direct_None)
    let ?piece = "if m then PLAYER_AI else PLAYER_HUMAN"
    let ?h = "\<lambda>col. (col, full_value g (dropped g board col ?piece) (depth - 1) (\<not> m))"
    have child: "\<exists>x. full_value g (dropped g board col ?piece) (depth - 1) (\<not> m) = Fin x
          \<and> ebind (full_minimax g (dropped g board col ?piece) (depth - 1) (\<not> m))
                (\<lambda>(_, v). Inr (col, v)) = Inr (?h col)"
      if "col \<in> set (playable g board)" for col
    proof -
      from less.IH [OF dp shape_dropped [OF s that], of ?piece "\<not> m"]
      obtain c x where "full_minimax g (dropped g board col ?piece) (depth - 1) (\<not> m)
          = Inr (c, Fin x)" by blast
      then show ?thesis by (simp add: full_value_def)
    qed
    then have m: "map_err (\<lambda>col.
              ebind (full_minimax g (dropped g board col ?piece) (depth - 1) (\<not> m))
                (\<lambda>(_, v). Inr (col, v))) (playable g board)
        = Inr (map ?h (playable g board))"
      by (intro map_err_Inr) blast
    have ne: "map snd (map ?h (playable g board)) \<noteq> []"
      using playable_nonempty [OF None] by simp
    have fin: "\<exists>i. x = Fin i" if "x \<in> set (map snd (map ?h (playable g board)))" for x
      using that child by auto
    from maximum_Fin [OF ne fin] minimum_Fin [OF ne fin]
    show ?thesis
      unfolding full_expand [OF s None] m ebind_Inr Let_def by (cases m) auto
  qed
qed

lemma full_minimax_value:
  "shape g board \<Longrightarrow> \<exists>c. full_minimax g board depth m = Inr (c, full_value g board depth m)"
  using full_total [of g board depth m] by (auto simp: full_value_def)

lemma full_value_Fin: "shape g board \<Longrightarrow> \<exists>x. full_value g board depth m = Fin x"
  using full_total [of g board depth m] by (auto simp: full_value_def)

lemma full_expand_value:
  assumes s: "shape g board" and d: "direct g board depth = None"
  shows "full_minimax g board depth m =
     (let cvs = map (\<lambda>col. (col, full_value g (dropped g board col
                       (if m then PLAYER_AI else PLAYER_HUMAN)) (depth - 1) (\<not> m)))
                  (playable g board);
          v = (if m then maximum (map snd cvs) else minimum (map snd cvs))
      in Inr (first_with v cvs, v))"
proof -
  let ?piece = "if m then PLAYER_AI else PLAYER_HUMAN"
  let ?h = "\<lambda>col. (col, full_value g (dropped g board col ?piece) (depth - 1) (\<not> m))"
  have "map_err (\<lambda>col.
              ebind (full_minimax g (dropped g board col ?piece) (depth - 1) (\<not> m))
                (\<lambda>(_, v). Inr (col, v))) (playable g board)
        = Inr (map ?h (playable g board))"
  proof (rule map_err_Inr)
    fix col assume "col \<in> set (playable g board)"
    from full_minimax_value [OF shape_dropped [OF s this], of ?piece "depth - 1" "\<not> m"]
    show "ebind (full_minimax g (dropped g board col ?piece) (depth - 1) (\<not> m))
                (\<lambda>(_, v). Inr (col, v)) = Inr (?h col)"
      by auto
  qed
  then show ?thesis
    unfolding full_expand [OF s d] by (simp add: Let_def)
qed


lemma not_less_NegInf [simp]: "\<not> x < NegInf"
  by (simp add: less_score_def)

lemma le_NegInf [simp]: "x \<le> NegInf \<longleftrightarrow> x = NegInf"
  by (cases x) simp_all

lemma maximum_mem: "xs \<noteq> [] \<Longrightarrow> maximum xs \<in> set xs"
proof (induction xs)
  case Nil
  then show ?case by simp
next
  case (Cons x xs)
  then show ?case by (cases "xs = []") (auto simp: max_def)
qed

lemma first_with_maximum:
  assumes "cols \<noteq> []"
  shows "\<exists>c. first_with (maximum (map F cols)) (map (\<lambda>c. (c, F c)) cols) = Some c"
proof -
  from assms have "maximum (map F cols) \<in> set (map F cols)" by (intro maximum_mem) simp
  then have "find (\<lambda>cv. snd cv = maximum (map F cols)) (map (\<lambda>c. (c, F c)) cols) \<noteq> None"
    unfolding find_None_iff by auto
  then show ?thesis by (auto simp: first_with_def)
qed

lemma first_with_Cons:
  "first_with v ((c, a) # cvs) = (if a = v then Some c else first_with v cvs)"
  by (simp add: first_with_def)

lemma minimum_const_min: "min v (minimum (map (\<lambda>c. v) cols)) = v"
  by (induction cols) simp_all

lemma sound_store:
  "sound g T \<Longrightarrow> full_minimax g board depth m = Inr r \<Longrightarrow> sound g (T((board, depth, m) \<mapsto> r))"
  unfolding sound_def by (auto split: if_splits)

lemma minimax_again:
  assumes s: "shape g board" and T: "sound g (transposition_table st)"
    and f: "full_minimax g board depth m = Inr r"
    and k: "direct g board depth = None \<longrightarrow> transposition_table st (board, depth, m) = Some r"
  shows "minimax g rnd st board depth alpha beta m = Inr (st, board, r)"
proof (cases "transposition_table st (board, depth, m)")
  case (Some r')
  with T f have "r' = r" unfolding sound_def by fastforce
  with minimax_hit [OF Some] show ?thesis by simp
next
  case None
  with k obtain r' where d: "direct g board depth = Some r'" by auto
  from full_direct [OF s d] f have "r' = r" by simp
  with minimax_direct [OF s None d] show ?thesis by simp
qed

lemma min_loop_const:
  assumes s: "shape g board"
    and child: "\<And>a be. child st board a be = Inr (st, board, c, v)"
  shows "set cols \<subseteq> set (open_columns g board) \<Longrightarrow>
     min_loop g child board alpha cols (st, beta, v, column) = Inr (st, column, v)"
proof (induction cols arbitrary: beta)
  case Nil
  show ?case by simp
next
  case (Cons col cols)
  from Cons.prems have o: "col \<in> set (open_columns g board)"
    and r: "set cols \<subseteq> set (open_columns g board)" by auto
  show ?case
    unfolding min_loop_step [OF s o] child ebind_Inr
    by (simp add: Let_def Cons.IH [OF r])
qed

lemma max_loop_exact:
  assumes s: "shape g board"
    and child: "\<And>st a col. col \<in> set (open_columns g board) \<Longrightarrow>
         sound g (transposition_table st) \<Longrightarrow> a \<noteq> PosInf \<Longrightarrow>
         \<exists>st' c. child st (dropped g board col PLAYER_AI) a PosInf
                    = Inr (st', dropped g board col PLAYER_AI, c, F col)
                \<and> sound g (transposition_table st')"
    and fin: "\<And>col. col \<in> set (open_columns g board) \<Longrightarrow> F col \<noteq> PosInf"
  shows "set cols \<subseteq> set (open_columns g board) \<Longrightarrow> sound g (transposition_table st) \<Longrightarrow>
     alpha \<noteq> PosInf \<Longrightarrow> val \<noteq> PosInf \<Longrightarrow>
     \<exists>st'. max_loop g child board PosInf cols (st, alpha, val, column)
             = Inr (st',
                    (if val < maximum (map F cols)
                     then the (first_with (maximum (map F cols)) (map (\<lambda>c. (c, F c)) cols))
                     else column),
                    max val (maximum (map F cols)))
         \<and> sound g (transposition_table st')"
proof (induction cols arbitrary: st alpha val column)
  case Nil
  then show ?case by simp
next
  case (Cons col cols)
  from Cons.prems(1) have o: "col \<in> set (open_columns g board)"
    and r: "set cols \<subseteq> set (open_columns g board)" by auto
  from child [OF o Cons.prems(2,3)] obtain st1 c where
    c: "child st (dropped g board col PLAYER_AI) alpha PosInf
          = Inr (st1, dropped g board col PLAYER_AI, c, F col)"
    and T1: "sound g (transposition_table st1)" by blast
  let ?val = "if val < F col then F col else val"
  let ?column = "if val < F col then col else column"
  let ?M = "maximum (map F cols)"
  have v: "?val \<noteq> PosInf" using fin [OF o] Cons.prems(4) by simp
  have vm: "?val = max val (F col)" by (auto simp: max_def)
  have a: "max alpha ?val \<noteq> PosInf" using v Cons.prems(3) by (simp add: max_def)
  then have nb: "\<not> PosInf \<le> max alpha ?val" by (cases "max alpha ?val") simp_all
  from Cons.IH [OF r T1 a v, of ?column] obtain st2 where
    l: "max_loop g child board PosInf cols (st1, max alpha ?val, ?val, ?column)
          = Inr (st2,
                 (if ?val < ?M then the (first_with ?M (map (\<lambda>c. (c, F c)) cols)) else ?column),
                 max ?val ?M)"
    and T2: "sound g (transposition_table st2)" by blast
  have step: "max_loop g child board PosInf (col # cols) (st, alpha, val, column)
      = max_loop g child board PosInf cols (st1, max alpha ?val, ?val, ?column)"
    unfolding max_loop_step [OF s o] c ebind_Inr using nb by (simp add: Let_def)
  have col: "(if ?val < ?M then the (first_with ?M (map (\<lambda>c. (c, F c)) cols)) else ?column)
      = (if val < maximum (map F (col # cols))
         then the (first_with (maximum (map F (col # cols))) (map (\<lambda>c. (c, F c)) (col # cols)))
         else column)"
    unfolding list.map maximum_Cons first_with_Cons
    by (auto simp: max_def)
  have val: "max ?val ?M = max val (maximum (map F (col # cols)))"
    unfolding vm by (simp add: max.assoc)
  show ?case unfolding step l col val using T2 by blast
qed


lemma sound_empty: "sound g Map.empty"
  by (simp add: sound_def)

lemma PLAYER_HUMAN_empty: "PLAYER_HUMAN = PIECE_EMPTY"
  by (simp add: consts_defs)

lemma minimax_exact:
  "shape g board \<Longrightarrow> sound g (transposition_table st) \<Longrightarrow> alpha \<noteq> PosInf \<Longrightarrow>
   \<exists>st' r. minimax g rnd st board depth alpha PosInf m = Inr (st', board, r)
     \<and> sound g (transposition_table st')
     \<and> full_minimax g board depth m = Inr r
     \<and> (direct g board depth = None \<longrightarrow> transposition_table st' (board, depth, m) = Some r)"
proof (induction depth arbitrary: board st alpha m rule: less_induct)
  case (less depth)
  note s = less.prems(1) and T = less.prems(2) and a = less.prems(3)
  show ?case
  proof (cases "transposition_table st (board, depth, m)")
    case (Some r)
    from T Some have "full_minimax g board depth m = Inr r" unfolding sound_def by blast
    with minimax_hit [OF Some] T Some show ?thesis by blast
  next
    case None
    show ?thesis
    proof (cases "direct g board depth")
      case (Some r)
      from minimax_direct [OF s None Some] full_direct [OF s Some] T Some
      show ?thesis by auto
    next
      case d: None
      then have dp: "depth - 1 < depth" by (simp add: direct_None)
      from playable_nonempty [OF d] have ne: "playable g board \<noteq> []" .
      from random_choice_playable [OF ne] obtain column0 where
        rc: "random_choice rnd st (playable g board)
               = Inr (st\<lparr>draws := draws st + 1\<rparr>, column0)" by blast
      let ?st1 = "st\<lparr>draws := draws st + 1\<rparr>"
      have T1: "sound g (transposition_table ?st1)" using T by simp
      let ?piece = "if m then PLAYER_AI else PLAYER_HUMAN"
      let ?F = "\<lambda>col. full_value g (dropped g board col ?piece) (depth - 1) (\<not> m)"
      let ?cvs = "map (\<lambda>col. (col, ?F col)) (playable g board)"
      note fe = full_expand_value [OF s d, of m]
      show ?thesis
      proof (cases m)
        case True
        let ?G = "\<lambda>col. full_value g (dropped g board col PLAYER_AI) (depth - 1) False"
        let ?M = "maximum (map ?G (playable g board))"
        have child: "\<exists>st' c. minimax g rnd st (dropped g board col PLAYER_AI) (depth - 1) a PosInf False
                    = Inr (st', dropped g board col PLAYER_AI, c, ?G col)
                \<and> sound g (transposition_table st')"
          if "col \<in> set (open_columns g board)" "sound g (transposition_table st)" "a \<noteq> PosInf"
          for st a col
        proof -
          from that(1) have sh: "shape g (dropped g board col PLAYER_AI)"
            by (rule place_disc_open(2) [OF s])
          have "\<exists>st' r. minimax g rnd st (dropped g board col PLAYER_AI) (depth - 1) a PosInf False
                 = Inr (st', dropped g board col PLAYER_AI, r)
              \<and> sound g (transposition_table st')
              \<and> full_minimax g (dropped g board col PLAYER_AI) (depth - 1) False = Inr r
              \<and> (direct g (dropped g board col PLAYER_AI) (depth - 1) = None \<longrightarrow>
                   transposition_table st' (dropped g board col PLAYER_AI, depth - 1, False)
                     = Some r)"
            by (rule less.IH [OF dp sh that(2,3)])
          then obtain st' c v where
            1: "minimax g rnd st (dropped g board col PLAYER_AI) (depth - 1) a PosInf False
                  = Inr (st', dropped g board col PLAYER_AI, c, v)"
            and 2: "sound g (transposition_table st')"
            and 3: "full_minimax g (dropped g board col PLAYER_AI) (depth - 1) False = Inr (c, v)"
            by auto
          from 3 have "?G col = v" by (simp add: full_value_def)
          with 1 2 show ?thesis by blast
        qed
        have fin: "?G col \<noteq> PosInf" if "col \<in> set (open_columns g board)" for col
          using full_value_Fin [OF place_disc_open(2) [OF s that], of PLAYER_AI "depth - 1" False]
          by auto
        from max_loop_exact [where child = "\<lambda>st' b a be. minimax g rnd st' b (depth - 1) a be False"
            and F = ?G and val = NegInf and column = column0, OF s child fin playable_subset T1 a]
        obtain st2 where
          l: "max_loop g (\<lambda>st' b a be. minimax g rnd st' b (depth - 1) a be False)
                board PosInf (playable g board) (?st1, alpha, NegInf, column0)
              = Inr (st2,
                  (if NegInf < ?M
                   then the (first_with ?M (map (\<lambda>c. (c, ?G c)) (playable g board)))
                   else column0),
                  max NegInf ?M)"
          and T2: "sound g (transposition_table st2)" by auto
        from first_with_maximum [OF ne, of ?G] obtain c where
          c: "first_with ?M (map (\<lambda>c. (c, ?G c)) (playable g board)) = Some c" ..
        have "\<exists>x. ?M = Fin x"
        proof (rule maximum_Fin)
          show "map ?G (playable g board) \<noteq> []" using ne by simp
          fix x assume "x \<in> set (map ?G (playable g board))"
          then obtain col where "col \<in> set (playable g board)" "x = ?G col" by auto
          with full_value_Fin [OF shape_dropped [OF s this(1)], of PLAYER_AI "depth - 1" False]
          show "\<exists>i. x = Fin i" by simp
        qed
        then have lt: "NegInf < ?M" by (auto simp: less_score_def)
        have f: "full_minimax g board depth m = Inr (Some c, ?M)"
          unfolding fe using True c by (simp add: Let_def comp_def)
        have r: "minimax g rnd st board depth alpha PosInf m
            = Inr (st2\<lparr>transposition_table :=
                    (transposition_table st2)((board, depth, m) \<mapsto> (Some c, ?M))\<rparr>,
                   board, Some c, ?M)"
          unfolding minimax_expand [OF s None d] rc ebind_Inr using True l lt c by simp
        from sound_store [OF T2 f] r f show ?thesis by simp
      next
        case False
        from ne obtain col1 rest where p: "playable g board = col1 # rest"
          by (cases "playable g board") auto
        from p playable_subset [of g board] have o1: "col1 \<in> set (open_columns g board)"
          and orest: "set rest \<subseteq> set (open_columns g board)" by auto
        have "\<exists>st' r. minimax g rnd ?st1 board (depth - 1) alpha PosInf True
                 = Inr (st', board, r)
              \<and> sound g (transposition_table st')
              \<and> full_minimax g board (depth - 1) True = Inr r
              \<and> (direct g board (depth - 1) = None \<longrightarrow>
                   transposition_table st' (board, depth - 1, True) = Some r)"
          by (rule less.IH [OF dp s T1 a])
        then obtain st2 c v where
          1: "minimax g rnd ?st1 board (depth - 1) alpha PosInf True = Inr (st2, board, c, v)"
          and T2: "sound g (transposition_table st2)"
          and 3: "full_minimax g board (depth - 1) True = Inr (c, v)"
          and 4: "direct g board (depth - 1) = None \<longrightarrow>
                   transposition_table st2 (board, depth - 1, True) = Some (c, v)"
          by auto
        from 3 full_total [OF s, of "depth - 1" True] obtain x where x: "v = Fin x" by auto
        have again: "minimax g rnd st2 board (depth - 1) a be True = Inr (st2, board, c, v)"
          for a be
          by (rule minimax_again [OF s T2 3 4])
        have rest: "min_loop g (\<lambda>st' b a be. minimax g rnd st' b (depth - 1) a be True)
                board alpha rest (st2, be, v, col1) = Inr (st2, col1, v)" for be
          by (rule min_loop_const [where c = c, OF s _ orest]) (rule again)
        have lt: "v < PosInf" using x by (simp add: less_score_def)
        have l: "min_loop g (\<lambda>st' b a be. minimax g rnd st' b (depth - 1) a be True)
                board alpha (playable g board) (?st1, PosInf, PosInf, column0)
              = Inr (st2, col1, v)"
          unfolding p min_loop_step [OF s o1] 1 ebind_Inr using lt rest by (simp add: Let_def)
        have same: "dropped g board col PLAYER_HUMAN = board" if "col \<in> set (playable g board)"
          for col
          unfolding PLAYER_HUMAN_empty using that playable_subset dropped_empty [OF s] by blast
        have fv: "full_value g board (depth - 1) True = v" using 3 by (simp add: full_value_def)
        have cvs: "map (\<lambda>col. (col, full_value g (dropped g board col PLAYER_HUMAN)
                       (depth - 1) True)) (playable g board)
            = map (\<lambda>col. (col, v)) (playable g board)"
          using same fv by simp
        have fe': "full_minimax g board depth False =
            (let cvs = map (\<lambda>col. (col, full_value g (dropped g board col PLAYER_HUMAN)
                              (depth - 1) True)) (playable g board);
                 v = minimum (map snd cvs)
             in Inr (first_with v cvs, v))"
          using full_expand_value [OF s d, of False] by simp
        have "full_minimax g board depth False = Inr (Some col1, v)"
          unfolding fe' cvs unfolding p
          by (simp add: Let_def comp_def first_with_def minimum_const_min)
        with False have f: "full_minimax g board depth m = Inr (Some col1, v)" by simp
        have r: "minimax g rnd st board depth alpha PosInf m
            = Inr (st2\<lparr>transposition_table :=
                    (transposition_table st2)((board, depth, m) \<mapsto> (Some col1, v))\<rparr>,
                   board, Some col1, v)"
          unfolding minimax_expand [OF s None d] rc ebind_Inr using False l by simp
        from sound_store [OF T2 f] r f show ?thesis by simp
      qed
    qed
  qed
qed


section \<open>Pruning and the unpruned search\<close>

text \<open>
  C2. \<open>full_minimax\<close> is the search without the window, the \<open>break\<close>s and the table:
  it descends into every playable column and takes the first column of maximal
  (minimal) value. Called with the window every caller in the file passes, an upper
  bound of \<open>+inf\<close> and a lower bound below it, on a board of the game's shape and with a
  table whose entries are results of the unpruned search (the empty table, and the table
  after any such call), the pruned \<open>minimax\<close> returns, and its pair of column and value
  is the pair of \<open>full_minimax\<close> for the same board, depth and side; the table it leaves
  again holds results of the unpruned search only.
\<close>

theorem minimax_equals_full_minimax:
  assumes "shape g board" and "sound g (transposition_table st)" and "alpha \<noteq> PosInf"
  shows "\<exists>st' r. minimax g rnd st board depth alpha PosInf m = Inr (st', board, r)
     \<and> full_minimax g board depth m = Inr r
     \<and> returned (minimax g rnd st board depth alpha PosInf m) = full_minimax g board depth m
     \<and> sound g (transposition_table st')"
proof -
  from minimax_exact [OF assms, of rnd depth m] obtain st' r where
    1: "minimax g rnd st board depth alpha PosInf m = Inr (st', board, r)"
    and 2: "sound g (transposition_table st')"
    and 3: "full_minimax g board depth m = Inr r" by blast
  from 1 3 have "returned (minimax g rnd st board depth alpha PosInf m)
      = full_minimax g board depth m"
    by (cases r) (simp add: returned_def)
  with 1 2 3 show ?thesis by blast
qed

theorem minimax_equals_full_minimax_witness:
  "shape g44 b_open_right \<and> sound g44 (transposition_table st0) \<and> NegInf \<noteq> PosInf
   \<and> (\<exists>st' r. minimax g44 (\<lambda>_. 0) st0 b_open_right 2 NegInf PosInf True
                   = Inr (st', b_open_right, r)
      \<and> full_minimax g44 b_open_right 2 True = Inr r
      \<and> returned (minimax g44 (\<lambda>_. 0) st0 b_open_right 2 NegInf PosInf True)
          = full_minimax g44 b_open_right 2 True
      \<and> sound g44 (transposition_table st'))"
proof -
  have s: "shape g44 b_open_right" by code_simp
  have i: "sound g44 (transposition_table st0)" by (simp add: st0_def sound_def)
  have n: "NegInf \<noteq> PosInf" by simp
  from minimax_equals_full_minimax [OF s i n, of "\<lambda>_. 0" 2 True] s i
  show ?thesis by simp
qed

end
